theory Spec2Isabelle
  imports Main "HOL-Library.Word"
begin

section \<open>The storage engine: blinkdb.h and blinkdb.cpp\<close>

text \<open>
  The class \<^verbatim>\<open>BlinkDB\<close> as a record of its data members, each under its own name.

  \<^item> \<open>store\<close> and \<open>evicted_keys\<close> are \<^verbatim>\<open>std::unordered_map\<close>s: partial maps.
  \<^item> \<open>lru_keys\<close> is a \<^verbatim>\<open>std::list\<close> of strings and \<open>lru_map\<close> maps a key to an iterator
    into it. An iterator designates one node of the list, whatever keys the other nodes
    hold, so a node is modelled as a pair of an identity and the key it holds, and an
    iterator as the identity. \<open>next_node\<close> is the allocator: the identity the next
    \<^verbatim>\<open>push_front\<close> hands out.
  \<^item> \<open>max_cache_size\<close> is the constant member initialised with \<^verbatim>\<open>MAX_CAPACITY\<close>.
  \<^item> \<open>persistence_file\<close> is the content of the file the member of that name points to
    (\<^verbatim>\<open>flush_data.txt\<close>): \<open>None\<close> while the file does not exist.

  The mutex is left out: every operation below runs alone, from its first statement to
  its last.
\<close>

record BlinkDB =
  store :: "string \<rightharpoonup> string"
  lru_keys :: "(nat \<times> string) list"
  lru_map :: "string \<rightharpoonup> nat"
  evicted_keys :: "string \<rightharpoonup> bool"
  max_cache_size :: nat
  persistence_file :: "string option"
  dirty :: bool
  next_node :: nat

definition MAX_CAPACITY :: nat where
  "MAX_CAPACITY = 10000"

text \<open>What a call can end in besides a value: the two exceptions \<^verbatim>\<open>std::stoi\<close> throws, and
  the two undefined behaviours the code can run into (a read through an iterator whose
  element was erased, a signed addition that overflows).\<close>

datatype failure = invalid_argument | out_of_range | dangling_iterator | signed_overflow

text \<open>\<^verbatim>\<open>lru_keys.erase(it)\<close>: the node \<open>it\<close> designates leaves the list.\<close>

definition list_erase :: "nat \<Rightarrow> (nat \<times> string) list \<Rightarrow> (nat \<times> string) list" where
  "list_erase it xs = filter (\<lambda>n. fst n \<noteq> it) xs"

text \<open>\<^verbatim>\<open>lru_keys.push_front(key); lru_map[key] = lru_keys.begin();\<close>\<close>

definition lru_push_front :: "string \<Rightarrow> BlinkDB \<Rightarrow> BlinkDB" where
  "lru_push_front key s =
     s\<lparr>lru_keys := (next_node s, key) # lru_keys s,
       lru_map := (lru_map s)(key \<mapsto> next_node s),
       next_node := Suc (next_node s)\<rparr>"

text \<open>\<^verbatim>\<open>if (lru_map.find(key) != lru_map.end()) { lru_keys.erase(lru_map[key]); lru_map.erase(key); }\<close>\<close>

definition lru_remove :: "string \<Rightarrow> BlinkDB \<Rightarrow> BlinkDB" where
  "lru_remove key s =
     (case lru_map s key of
        None \<Rightarrow> s
      | Some it \<Rightarrow> s\<lparr>lru_keys := list_erase it (lru_keys s), lru_map := (lru_map s)(key := None)\<rparr>)"

text \<open>The body of the \<^verbatim>\<open>if (lru_keys.size() > max_cache_size)\<close> of \<^verbatim>\<open>updateLRU\<close>: the key of
  the last node is marked as evicted if \<open>store\<close> holds it, and leaves \<open>store\<close>, \<open>lru_map\<close> and
  the list.\<close>

definition evict_back :: "BlinkDB \<Rightarrow> BlinkDB" where
  "evict_back s =
     (let evict_key = snd (last (lru_keys s));
          s1 = (if store s evict_key \<noteq> None
                then s\<lparr>evicted_keys := (evicted_keys s)(evict_key \<mapsto> True)\<rparr>
                else s)
      in s1\<lparr>store := (store s1)(evict_key := None),
            lru_map := (lru_map s1)(evict_key := None),
            lru_keys := butlast (lru_keys s1),
            dirty := True\<rparr>)"

definition updateLRU :: "string \<Rightarrow> BlinkDB \<Rightarrow> BlinkDB" where
  "updateLRU key s =
     (let s1 = lru_push_front key (lru_remove key s)
      in if length (lru_keys s1) > max_cache_size s1 then evict_back s1 else s1)"

definition BlinkDB_set :: "string \<Rightarrow> string \<Rightarrow> BlinkDB \<Rightarrow> BlinkDB" where
  "BlinkDB_set key val s =
     (let s1 = updateLRU key s
      in s1\<lparr>store := (store s1)(key \<mapsto> val), dirty := True\<rparr>)"

text \<open>
  \<^verbatim>\<open>std::getline(in, str, delim)\<close> on the unread rest of a file: it fails when nothing is
  left; otherwise it takes the characters up to the first \<open>delim\<close>, which it consumes, or
  all of them when there is none.
\<close>

fun getline :: "char \<Rightarrow> string \<Rightarrow> (string \<times> string) option" where
  "getline delim [] = None"
| "getline delim (c # cs) =
     Some (takeWhile (\<lambda>x. x \<noteq> delim) (c # cs), drop 1 (dropWhile (\<lambda>x. x \<noteq> delim) (c # cs)))"

lemma getline_shorter: "getline delim inp = Some (a, rest) \<Longrightarrow> length rest < length inp"
proof (cases inp)
  case Nil
  assume "getline delim inp = Some (a, rest)"
  with Nil show ?thesis by simp
next
  case (Cons c cs)
  assume "getline delim inp = Some (a, rest)"
  with Cons have "rest = drop 1 (dropWhile (\<lambda>x. x \<noteq> delim) (c # cs))" by simp
  moreover have "length (dropWhile (\<lambda>x. x \<noteq> delim) (c # cs)) \<le> length (c # cs)"
    by (rule length_dropWhile_le)
  ultimately show ?thesis using Cons by (cases "dropWhile (\<lambda>x. x \<noteq> delim) (c # cs)") auto
qed

text \<open>What \<^verbatim>\<open>restoreFromDisk\<close> does at the record it was looking for:
  \<^verbatim>\<open>store[key] = value; lru_keys.push_front(key); lru_map[key] = lru_keys.begin(); evicted_keys.erase(key);\<close>\<close>

definition restored :: "string \<Rightarrow> string \<Rightarrow> BlinkDB \<Rightarrow> BlinkDB" where
  "restored key val s =
     (lru_push_front key (s\<lparr>store := (store s)(key \<mapsto> val)\<rparr>))
       \<lparr>evicted_keys := (evicted_keys s)(key := None)\<rparr>"

text \<open>The loop of \<^verbatim>\<open>restoreFromDisk\<close> over the unread rest \<open>inp\<close> of the file; it breaks at the
  first record whose key is \<open>key\<close>.\<close>

function restore_loop :: "string \<Rightarrow> string \<Rightarrow> BlinkDB \<Rightarrow> BlinkDB" where
  "restore_loop key inp s =
     (case getline (CHR 0x09) inp of
        None \<Rightarrow> s
      | Some (line_key, inp1) \<Rightarrow>
          (case getline (CHR 0x0A) inp1 of
             None \<Rightarrow> s
           | Some (val, inp2) \<Rightarrow>
               if line_key = key then restored key val s else restore_loop key inp2 s))"
  by pat_completeness auto
termination
proof (relation "measure (\<lambda>(key, inp, s). length inp)")
  show "wf (measure (\<lambda>(key, inp, s). length inp))" by simp
next
  fix key inp :: string and s :: BlinkDB and x2 line_key inp1 y2 val inp2
  assume a: "getline (CHR 0x09) inp = Some x2" "(line_key, inp1) = x2"
    "getline (CHR 0x0A) inp1 = Some y2" "(val, inp2) = y2"
  from a have "length inp1 < length inp" by (metis getline_shorter)
  moreover from a have "length inp2 < length inp1" by (metis getline_shorter)
  ultimately show "((key, inp2, s), (key, inp, s)) \<in> measure (\<lambda>(key, inp, s). length inp)"
    by simp
qed

declare restore_loop.simps [simp del]

definition restoreFromDisk :: "string \<Rightarrow> BlinkDB \<Rightarrow> BlinkDB" where
  "restoreFromDisk key s =
     (case persistence_file s of
        None \<Rightarrow> s
      | Some inp \<Rightarrow> restore_loop key inp s)"

text \<open>What the loop of \<^verbatim>\<open>restoreFromDisk\<close> finds in a file: the value of the first record whose
  key is \<open>key\<close>. The same loop, returning the value instead of storing it; it is what
  "a lookup of the key in the persistence file" means below (\<open>restore_loop_lookup\<close>).\<close>

function file_lookup :: "string \<Rightarrow> string \<Rightarrow> string option" where
  "file_lookup key inp =
     (case getline (CHR 0x09) inp of
        None \<Rightarrow> None
      | Some (line_key, inp1) \<Rightarrow>
          (case getline (CHR 0x0A) inp1 of
             None \<Rightarrow> None
           | Some (val, inp2) \<Rightarrow> if line_key = key then Some val else file_lookup key inp2))"
  by pat_completeness auto
termination
proof (relation "measure (\<lambda>(key, inp). length inp)")
  show "wf (measure (\<lambda>(key, inp). length inp))" by simp
next
  fix key inp :: string and x2 line_key inp1 y2 val inp2
  assume a: "getline (CHR 0x09) inp = Some x2" "(line_key, inp1) = x2"
    "getline (CHR 0x0A) inp1 = Some y2" "(val, inp2) = y2"
  from a have "length inp1 < length inp" by (metis getline_shorter)
  moreover from a have "length inp2 < length inp1" by (metis getline_shorter)
  ultimately show "((key, inp2), (key, inp)) \<in> measure (\<lambda>(key, inp). length inp)"
    by simp
qed

declare file_lookup.simps [simp del]

text \<open>
  \<^verbatim>\<open>get\<close> returns \<^verbatim>\<open>it->second\<close> after \<^verbatim>\<open>updateLRU(key)\<close>. The iterator \<open>it\<close> was taken
  before; it still designates the element of \<open>key\<close>, holding the value found, unless
  \<^verbatim>\<open>updateLRU\<close> erased that very element, and then the read is undefined.
\<close>

definition get_touch :: "string \<Rightarrow> string \<Rightarrow> BlinkDB \<Rightarrow> (failure + string) \<times> BlinkDB" where
  "get_touch key val s =
     (let s1 = updateLRU key s
      in (if store s1 key = None then Inl dangling_iterator else Inr val, s1))"

definition BlinkDB_get :: "string \<Rightarrow> BlinkDB \<Rightarrow> (failure + string) \<times> BlinkDB" where
  "BlinkDB_get key s =
     (case store s key of
        Some val \<Rightarrow> get_touch key val s
      | None \<Rightarrow>
          if evicted_keys s key \<noteq> None then
            (let s1 = restoreFromDisk key s
             in case store s1 key of
                  None \<Rightarrow> (Inr ''NULL'', s1)
                | Some val \<Rightarrow> get_touch key val s1)
          else (Inr ''NULL'', s))"

definition BlinkDB_del :: "string \<Rightarrow> BlinkDB \<Rightarrow> bool \<times> BlinkDB" where
  "BlinkDB_del key s =
     (case store s key of
        None \<Rightarrow> (False, s)
      | Some _ \<Rightarrow>
          (let s1 = lru_remove key s
           in (True, s1\<lparr>store := (store s1)(key := None), dirty := True\<rparr>)))"

text \<open>
  \<^verbatim>\<open>persistToFile\<close>. Two things are the environment's and so are arguments: \<open>ord\<close>, the order
  in which the \<^verbatim>\<open>unordered_map\<close> hands out its elements to the range-for (the language
  leaves it open; it lists the keys of \<open>store\<close>, each once, and a key that \<open>store\<close> does not
  hold writes nothing), and \<open>opened\<close>, whether the \<^verbatim>\<open>ofstream\<close> could be opened. Opening
  truncates the file; when it fails the file stays as it was. \<open>dirty\<close> is cleared after the
  \<^verbatim>\<open>if (out)\<close>, on both paths.
\<close>

definition record_line :: "(string \<rightharpoonup> string) \<Rightarrow> string \<Rightarrow> string" where
  "record_line m key =
     (case m key of None \<Rightarrow> [] | Some val \<Rightarrow> key @ [CHR 0x09] @ val @ [CHR 0x0A])"

definition persistToFile :: "string list \<Rightarrow> bool \<Rightarrow> BlinkDB \<Rightarrow> BlinkDB" where
  "persistToFile ord opened s =
     s\<lparr>persistence_file :=
         (if opened then Some (concat (map (record_line (store s)) ord))
          else persistence_file s),
       dirty := False\<rparr>"

text \<open>One turn of the loop of \<^verbatim>\<open>flushToDiskPeriodically\<close>, after its sleep.\<close>

definition flush_tick :: "string list \<Rightarrow> bool \<Rightarrow> BlinkDB \<Rightarrow> BlinkDB" where
  "flush_tick ord opened s = (if dirty s then persistToFile ord opened s else s)"

text \<open>The destructor, \<^verbatim>\<open>if (dirty) { persistToFile(); }\<close>: the last chance of a write.\<close>

definition BlinkDB_destructor :: "string list \<Rightarrow> bool \<Rightarrow> BlinkDB \<Rightarrow> BlinkDB" where
  "BlinkDB_destructor ord opened s = (if dirty s then persistToFile ord opened s else s)"

text \<open>
  The loop of \<^verbatim>\<open>loadFromFile\<close>, and the constructor, which runs it on a database whose
  members are all empty. The constructor of the source is \<open>BlinkDB_new MAX_CAPACITY file\<close>,
  with \<open>file\<close> what is on disk when the process starts; the capacity is an argument here
  so that a property can be stated for every capacity. The flush thread the constructor
  starts is \<open>flush_tick\<close>, run whenever its timer fires.
\<close>

function load_loop :: "string \<Rightarrow> BlinkDB \<Rightarrow> BlinkDB" where
  "load_loop inp s =
     (case getline (CHR 0x09) inp of
        None \<Rightarrow> s
      | Some (key, inp1) \<Rightarrow>
          (case getline (CHR 0x0A) inp1 of
             None \<Rightarrow> s
           | Some (val, inp2) \<Rightarrow>
               load_loop inp2 (lru_push_front key (s\<lparr>store := (store s)(key \<mapsto> val)\<rparr>))))"
  by pat_completeness auto
termination
proof (relation "measure (\<lambda>(inp, s). length inp)")
  show "wf (measure (\<lambda>(inp, s). length inp))" by simp
next
  fix inp :: string and s :: BlinkDB and x2 key inp1 y2 val inp2
  assume a: "getline (CHR 0x09) inp = Some x2" "(key, inp1) = x2"
    "getline (CHR 0x0A) inp1 = Some y2" "(val, inp2) = y2"
  from a have "length inp1 < length inp" by (metis getline_shorter)
  moreover from a have "length inp2 < length inp1" by (metis getline_shorter)
  ultimately show "((inp2, lru_push_front key (s\<lparr>store := (store s)(key \<mapsto> val)\<rparr>)), (inp, s))
      \<in> measure (\<lambda>(inp, s). length inp)"
    by simp
qed

declare load_loop.simps [simp del]

definition loadFromFile :: "BlinkDB \<Rightarrow> BlinkDB" where
  "loadFromFile s = (case persistence_file s of None \<Rightarrow> s | Some inp \<Rightarrow> load_loop inp s)"

definition BlinkDB_new :: "nat \<Rightarrow> string option \<Rightarrow> BlinkDB" where
  "BlinkDB_new capacity file =
     loadFromFile
       \<lparr>store = Map.empty, lru_keys = [], lru_map = Map.empty, evicted_keys = Map.empty,
        max_cache_size = capacity, persistence_file = file, dirty = False, next_node = 0\<rparr>"

subsection \<open>Sequences of operations\<close>

text \<open>
  What reaches the engine between two moments: calls of \<^verbatim>\<open>set\<close>, \<^verbatim>\<open>get\<close> and \<^verbatim>\<open>del\<close>, and
  turns of the flush loop. A run stops at the first call that ends in a failure.
\<close>

datatype op = SET string string | GET string | DEL string | FLUSH "string list" bool

fun step :: "op \<Rightarrow> BlinkDB \<Rightarrow> failure + BlinkDB" where
  "step (SET k v) s = Inr (BlinkDB_set k v s)"
| "step (GET k) s = (case BlinkDB_get k s of (Inl e, _) \<Rightarrow> Inl e | (Inr _, s') \<Rightarrow> Inr s')"
| "step (DEL k) s = Inr (snd (BlinkDB_del k s))"
| "step (FLUSH ord opened) s = Inr (flush_tick ord opened s)"

fun run :: "op list \<Rightarrow> BlinkDB \<Rightarrow> failure + BlinkDB" where
  "run [] s = Inr s"
| "run (x # xs) s = (case step x s of Inl e \<Rightarrow> Inl e | Inr s' \<Rightarrow> run xs s')"

text \<open>\<^verbatim>\<open>SET k1 v1; SET k2 v2; ...\<close> in this order.\<close>

definition set_all :: "(string \<times> string) list \<Rightarrow> BlinkDB \<Rightarrow> BlinkDB" where
  "set_all kvs s = fold (\<lambda>(k, v). BlinkDB_set k v) kvs s"

text \<open>The spec's lookup in the persistence log: what the scan of \<^verbatim>\<open>restoreFromDisk\<close> finds for a
  key in the file as it is on disk, nothing when there is no file.\<close>

definition log_lookup :: "string \<Rightarrow> BlinkDB \<Rightarrow> string option" where
  "log_lookup key s = (case persistence_file s of None \<Rightarrow> None | Some inp \<Rightarrow> file_lookup key inp)"

subsection \<open>What holds between two operations\<close>

text \<open>
  \<open>lru_wf\<close>: every node of \<open>lru_keys\<close> has an identity of its own, older than the next one
  to be handed out; no key is held by two nodes; and \<open>lru_map\<close> maps exactly the keys of the
  list, each to its node. \<open>engine_inv\<close> adds that \<open>store\<close> and \<open>lru_map\<close> hold the same keys,
  that the list is no longer than the capacity, and that the capacity is not zero.
\<close>

definition lru_wf :: "BlinkDB \<Rightarrow> bool" where
  "lru_wf s \<longleftrightarrow>
     distinct (map fst (lru_keys s)) \<and> distinct (map snd (lru_keys s)) \<and>
     (\<forall>k i. lru_map s k = Some i \<longleftrightarrow> (i, k) \<in> set (lru_keys s)) \<and>
     (\<forall>n \<in> set (lru_keys s). fst n < next_node s)"

definition engine_inv :: "BlinkDB \<Rightarrow> bool" where
  "engine_inv s \<longleftrightarrow>
     lru_wf s \<and> dom (store s) = dom (lru_map s) \<and>
     length (lru_keys s) \<le> max_cache_size s \<and> 0 < max_cache_size s"


section \<open>The server: blink_server.cpp\<close>

text \<open>
  \<^verbatim>\<open>size_t\<close> is 64 bits wide and \<^verbatim>\<open>int\<close> 32 (the server is built for Linux with epoll).
  Positions in \<open>raw_input\<close> are \<^verbatim>\<open>size_t\<close> and wrap around; what \<^verbatim>\<open>std::stoi\<close> returns is kept
  as the integer it denotes, which lies in the range of \<^verbatim>\<open>int\<close>.
\<close>

type_synonym size_t = "64 word"

definition npos :: size_t where
  "npos = - 1"

definition CRLF :: string where
  "CRLF = [CHR 0x0D, CHR 0x0A]"

definition string_size :: "string \<Rightarrow> size_t" where
  "string_size str = of_nat (length str)"

text \<open>The first position of \<^verbatim>\<open>"\r\n"\<close> in a string.\<close>

fun find_crlf :: "string \<Rightarrow> nat option" where
  "find_crlf [] = None"
| "find_crlf (c # cs) =
     (if c = CHR 0x0D \<and> take 1 cs = [CHR 0x0A] then Some 0 else map_option Suc (find_crlf cs))"

text \<open>\<^verbatim>\<open>raw_input.find("\r\n", pos)\<close>\<close>

definition string_find :: "string \<Rightarrow> size_t \<Rightarrow> size_t" where
  "string_find raw pos =
     (if length raw < unat pos then npos
      else case find_crlf (drop (unat pos) raw) of
             None \<Rightarrow> npos
           | Some j \<Rightarrow> pos + of_nat j)"

text \<open>\<^verbatim>\<open>raw_input.substr(pos, count)\<close>: it throws when \<open>pos\<close> lies behind the end, and stops
  at the end when \<open>count\<close> reaches further.\<close>

definition substr :: "string \<Rightarrow> size_t \<Rightarrow> size_t \<Rightarrow> failure + string" where
  "substr raw pos count =
     (if length raw < unat pos then Inl out_of_range
      else Inr (take (unat count) (drop (unat pos) raw)))"

text \<open>
  \<^verbatim>\<open>std::stoi(str)\<close>, which is \<^verbatim>\<open>strtol\<close> in base 10: white space, an optional sign, then
  digits as far as they go. No digit: \<^verbatim>\<open>std::invalid_argument\<close>. A value outside \<^verbatim>\<open>int\<close>:
  \<^verbatim>\<open>std::out_of_range\<close>.
\<close>

definition isspace :: "char \<Rightarrow> bool" where
  "isspace c \<longleftrightarrow> c \<in> set [CHR 0x20, CHR 0x09, CHR 0x0A, CHR 0x0B, CHR 0x0C, CHR 0x0D]"

definition isdigit :: "char \<Rightarrow> bool" where
  "isdigit c \<longleftrightarrow> (48::nat) \<le> of_char c \<and> (of_char c :: nat) \<le> 57"

definition digits_value :: "string \<Rightarrow> int" where
  "digits_value ds = foldl (\<lambda>acc c. 10 * acc + (int (of_char c) - 48)) 0 ds"

definition stoi :: "string \<Rightarrow> failure + int" where
  "stoi str =
     (let s1 = dropWhile isspace str;
          neg = (take 1 s1 = [CHR ''-'']);
          s2 = (if take 1 s1 = [CHR ''-''] \<or> take 1 s1 = [CHR ''+''] then drop 1 s1 else s1);
          ds = takeWhile isdigit s2
      in if ds = [] then Inl invalid_argument
         else (let v = (if neg then - digits_value ds else digits_value ds)
               in if v < - 2147483648 \<or> 2147483647 < v then Inl out_of_range else Inr v))"

text \<open>
  The loop of \<^verbatim>\<open>decodeCommand\<close>, with the number of turns the \<^verbatim>\<open>for\<close> still has to make.
  \<^verbatim>\<open>index + len\<close> converts \<open>len\<close> to \<^verbatim>\<open>size_t\<close> and wraps; \<^verbatim>\<open>len + 2\<close> is an addition of \<^verbatim>\<open>int\<close>s,
  undefined when it overflows. Every \<^verbatim>\<open>return parsed_command\<close> of the loop returns what
  has been pushed so far.
\<close>

fun decode_args :: "string \<Rightarrow> nat \<Rightarrow> size_t \<Rightarrow> string list \<Rightarrow> failure + string list" where
  "decode_args raw 0 index parsed_command = Inr parsed_command"
| "decode_args raw (Suc n) index parsed_command =
     (if string_size raw \<le> index \<or> raw ! unat index \<noteq> CHR ''$'' then Inr parsed_command
      else
        (let index1 = index + 1;
             next = string_find raw index1
         in if next = npos then Inr parsed_command
            else
              (case substr raw index1 (next - index1) of
                 Inl e \<Rightarrow> Inl e
               | Inr len_str \<Rightarrow>
                   (case stoi len_str of
                      Inl e \<Rightarrow> Inl e
                    | Inr len \<Rightarrow>
                        (let index2 = next + 2
                         in if string_size raw < index2 + of_int len then Inr parsed_command
                            else
                              (case substr raw index2 (of_int len) of
                                 Inl e \<Rightarrow> Inl e
                               | Inr arg \<Rightarrow>
                                   if 2147483647 < len + 2 then Inl signed_overflow
                                   else decode_args raw n (index2 + of_int (len + 2))
                                          (parsed_command @ [arg])))))))"

definition decodeCommand :: "string \<Rightarrow> failure + string list" where
  "decodeCommand raw_input =
     (if raw_input = [] \<or> raw_input ! 0 \<noteq> CHR ''*'' then Inr []
      else
        (let index = 1;
             next = string_find raw_input index
         in if next = npos then Inr []
            else
              (case substr raw_input index (next - index) of
                 Inl e \<Rightarrow> Inl e
               | Inr count_str \<Rightarrow>
                   (case stoi count_str of
                      Inl e \<Rightarrow> Inl e
                    | Inr arg_count \<Rightarrow> decode_args raw_input (nat arg_count) (next + 2) []))))"

text \<open>\<^verbatim>\<open>std::to_string\<close> of an unsigned and of a signed number.\<close>

fun to_digits :: "nat \<Rightarrow> string" where
  "to_digits n =
     (if n < 10 then [char_of (48 + n)] else to_digits (n div 10) @ [char_of (48 + n mod 10)])"

declare to_digits.simps [simp del]

definition to_string :: "int \<Rightarrow> string" where
  "to_string i = (if i < 0 then CHR ''-'' # to_digits (nat (- i)) else to_digits (nat i))"

definition encodeSimpleString :: "string \<Rightarrow> string" where
  "encodeSimpleString msg = ''+'' @ msg @ CRLF"

definition encodeBulkString :: "string \<Rightarrow> string" where
  "encodeBulkString msg =
     (if msg = [] then ''$-1'' @ CRLF
      else ''$'' @ to_digits (length msg) @ CRLF @ msg @ CRLF)"

definition encodeInteger :: "int \<Rightarrow> string" where
  "encodeInteger val = '':'' @ to_string val @ CRLF"

definition encodeError :: "string \<Rightarrow> string" where
  "encodeError msg = ''-ERR '' @ msg @ CRLF"

text \<open>The three handlers read \<open>args[1]\<close> and \<open>args[2]\<close> unchecked; \<^verbatim>\<open>handleCommand\<close>, their only
  caller, has checked the size.\<close>

definition processSet :: "string list \<Rightarrow> BlinkDB \<Rightarrow> (failure + string) \<times> BlinkDB" where
  "processSet args db = (Inr (encodeSimpleString ''OK''), BlinkDB_set (args ! 1) (args ! 2) db)"

definition processGet :: "string list \<Rightarrow> BlinkDB \<Rightarrow> (failure + string) \<times> BlinkDB" where
  "processGet args db =
     (case BlinkDB_get (args ! 1) db of
        (Inl e, db') \<Rightarrow> (Inl e, db')
      | (Inr val, db') \<Rightarrow>
          (Inr (if val = ''NULL'' then encodeBulkString [] else encodeBulkString val), db'))"

definition processDel :: "string list \<Rightarrow> BlinkDB \<Rightarrow> (failure + string) \<times> BlinkDB" where
  "processDel args db =
     (case BlinkDB_del (args ! 1) db of
        (deleted, db') \<Rightarrow> (Inr (encodeInteger (if deleted then 1 else 0)), db'))"

text \<open>\<^verbatim>\<open>::toupper\<close> in the C locale.\<close>

definition toupper :: "char \<Rightarrow> char" where
  "toupper c =
     (if (97::nat) \<le> of_char c \<and> (of_char c :: nat) \<le> 122 then char_of (of_char c - (32::nat))
      else c)"

definition handleCommand :: "string list \<Rightarrow> BlinkDB \<Rightarrow> (failure + string) \<times> BlinkDB" where
  "handleCommand command db =
     (if command = [] then (Inr (encodeError ''Empty command''), db)
      else
        (let cmd = map toupper (command ! 0)
         in if cmd = ''SET'' \<and> length command = 3 then processSet command db
            else if cmd = ''GET'' \<and> length command = 2 then processGet command db
            else if cmd = ''DEL'' \<and> length command = 2 then processDel command db
            else if cmd = ''CONFIG'' then (Inr (''*0'' @ CRLF), db)
            else (Inr (encodeError ''Unknown command''), db)))"

text \<open>
  \<^verbatim>\<open>handleClientRead\<close>, given the bytes \<open>pending\<close> on the socket: \<^verbatim>\<open>read\<close> takes the first 1024
  of them at most. The result is what is written back to the client, or \<open>None\<close> when the
  server closes the socket instead (nothing was read).
\<close>

definition handleClientRead :: "string \<Rightarrow> BlinkDB \<Rightarrow> (failure + string option) \<times> BlinkDB" where
  "handleClientRead pending db =
     (let raw_input = take 1024 pending
      in if raw_input = [] then (Inr None, db)
         else
           (case decodeCommand raw_input of
              Inl e \<Rightarrow> (Inl e, db)
            | Inr command \<Rightarrow>
                if command = [] then (Inr (Some (encodeError ''Invalid Command'')), db)
                else
                  (case handleCommand command db of
                     (Inl e, db') \<Rightarrow> (Inl e, db')
                   | (Inr response, db') \<Rightarrow> (Inr (Some response), db'))))"

section \<open>Properties of the engine\<close>

subsection \<open>The list and its index\<close>

lemma erase_is_remove1:
  "distinct (map fst xs) \<Longrightarrow> (i, k) \<in> set xs \<Longrightarrow> list_erase i xs = remove1 (i, k) xs"
proof (induction xs)
  case Nil
  then show ?case by simp
next
  case (Cons a xs)
  show ?case
  proof (cases "a = (i, k)")
    case True
    with Cons.prems have "\<forall>n \<in> set xs. fst n \<noteq> i" by force
    then have "filter (\<lambda>n. fst n \<noteq> i) xs = xs" by (simp add: filter_id_conv)
    with True show ?thesis by (simp add: list_erase_def)
  next
    case False
    with Cons.prems have in_xs: "(i, k) \<in> set xs" by simp
    have "i \<in> fst ` set xs" using in_xs by force
    with Cons.prems have "fst a \<noteq> i" by auto
    moreover from Cons.IH Cons.prems in_xs have "list_erase i xs = remove1 (i, k) xs" by simp
    ultimately show ?thesis using False by (simp add: list_erase_def)
  qed
qed

lemma map_snd_remove1:
  "distinct (map snd xs) \<Longrightarrow> (i, k) \<in> set xs \<Longrightarrow>
   map snd (remove1 (i, k) xs) = remove1 k (map snd xs)"
proof (induction xs)
  case Nil
  then show ?case by simp
next
  case (Cons a xs)
  show ?case
  proof (cases "a = (i, k)")
    case True
    then show ?thesis by simp
  next
    case False
    with Cons.prems have in_xs: "(i, k) \<in> set xs" by simp
    have "k \<in> snd ` set xs" using in_xs by force
    with Cons.prems have "snd a \<noteq> k" by auto
    with Cons False in_xs show ?thesis by simp
  qed
qed

lemma lru_remove_absent:
  "lru_map s key = None \<Longrightarrow> lru_remove key s = s"
  by (simp add: lru_remove_def)

lemma lru_remove_present:
  assumes "lru_wf s" and "lru_map s key = Some i"
  shows "lru_remove key s = s\<lparr>lru_keys := remove1 (i, key) (lru_keys s), lru_map := (lru_map s)(key := None)\<rparr>"
proof -
  from assms have "(i, key) \<in> set (lru_keys s)" by (simp add: lru_wf_def)
  moreover from assms have "distinct (map fst (lru_keys s))" by (simp add: lru_wf_def)
  ultimately have "list_erase i (lru_keys s) = remove1 (i, key) (lru_keys s)"
    by (metis erase_is_remove1)
  with assms show ?thesis by (simp add: lru_remove_def)
qed

lemma lru_remove_fields [simp]:
  "store (lru_remove key s) = store s"
  "evicted_keys (lru_remove key s) = evicted_keys s"
  "max_cache_size (lru_remove key s) = max_cache_size s"
  "persistence_file (lru_remove key s) = persistence_file s"
  "dirty (lru_remove key s) = dirty s"
  "next_node (lru_remove key s) = next_node s"
  "lru_map (lru_remove key s) = (lru_map s)(key := None)"
  by (auto simp: lru_remove_def split: option.splits)

lemma lru_remove_wf:
  assumes "lru_wf s"
  shows "lru_wf (lru_remove key s)"
proof (cases "lru_map s key")
  case None
  with assms show ?thesis by (simp add: lru_remove_absent)
next
  case (Some i)
  have d1: "distinct (map fst (lru_keys s))" and d2: "distinct (map snd (lru_keys s))"
    and m: "\<And>k j. lru_map s k = Some j \<longleftrightarrow> (j, k) \<in> set (lru_keys s)"
    and b: "\<And>n. n \<in> set (lru_keys s) \<Longrightarrow> fst n < next_node s"
    using assms by (auto simp: lru_wf_def)
  have d0: "distinct (lru_keys s)" using d1 by (simp add: distinct_map)
  let ?l = "remove1 (i, key) (lru_keys s)"
  have eq: "lru_remove key s = s\<lparr>lru_keys := ?l, lru_map := (lru_map s)(key := None)\<rparr>"
    using assms Some by (rule lru_remove_present)
  have "distinct (map fst ?l)" using d1 by (simp add: distinct_map distinct_remove1 inj_on_def)
  moreover have "distinct (map snd ?l)" using d2 by (simp add: distinct_map inj_on_def)
  moreover have "((lru_map s)(key := None)) k = Some j \<longleftrightarrow> (j, k) \<in> set ?l" for k j
  proof (cases "k = key")
    case True
    have "(j, key) \<notin> set ?l"
    proof
      assume a: "(j, key) \<in> set ?l"
      then have "(j, key) \<in> set (lru_keys s)" by (metis notin_set_remove1)
      then have "lru_map s key = Some j" by (simp add: m)
      with Some have "j = i" by simp
      with a d0 show False by simp
    qed
    with True show ?thesis by simp
  next
    case False
    then show ?thesis using d0 by (simp add: m)
  qed
  moreover have "\<forall>n \<in> set ?l. fst n < next_node s" using b by (metis notin_set_remove1)
  ultimately show ?thesis unfolding eq lru_wf_def by simp
qed

lemma lru_remove_no_key:
  assumes "lru_wf s"
  shows "key \<notin> snd ` set (lru_keys (lru_remove key s))"
proof
  assume "key \<in> snd ` set (lru_keys (lru_remove key s))"
  then obtain j where "(j, key) \<in> set (lru_keys (lru_remove key s))" by force
  moreover have "lru_wf (lru_remove key s)" using assms by (rule lru_remove_wf)
  ultimately have "lru_map (lru_remove key s) key = Some j" unfolding lru_wf_def by blast
  then show False by simp
qed

lemma lru_remove_keys:
  assumes "lru_wf s"
  shows "map snd (lru_keys (lru_remove key s)) = remove1 key (map snd (lru_keys s))"
proof (cases "lru_map s key")
  case None
  then have "key \<notin> snd ` set (lru_keys s)" using assms by (force simp: lru_wf_def)
  then have "remove1 key (map snd (lru_keys s)) = map snd (lru_keys s)"
    by (simp add: remove1_idem)
  with None show ?thesis by (simp add: lru_remove_absent)
next
  case (Some i)
  with assms have "(i, key) \<in> set (lru_keys s)" by (simp add: lru_wf_def)
  moreover from assms have "distinct (map snd (lru_keys s))" by (simp add: lru_wf_def)
  ultimately have "map snd (remove1 (i, key) (lru_keys s)) = remove1 key (map snd (lru_keys s))"
    by (metis map_snd_remove1)
  then show ?thesis using lru_remove_present [OF assms Some] by simp
qed


lemma lru_push_front_fields [simp]:
  "store (lru_push_front key s) = store s"
  "evicted_keys (lru_push_front key s) = evicted_keys s"
  "max_cache_size (lru_push_front key s) = max_cache_size s"
  "persistence_file (lru_push_front key s) = persistence_file s"
  "dirty (lru_push_front key s) = dirty s"
  "next_node (lru_push_front key s) = Suc (next_node s)"
  "lru_map (lru_push_front key s) = (lru_map s)(key \<mapsto> next_node s)"
  "lru_keys (lru_push_front key s) = (next_node s, key) # lru_keys s"
  by (simp_all add: lru_push_front_def)

lemma lru_push_front_wf:
  assumes "lru_wf s" and "key \<notin> snd ` set (lru_keys s)"
  shows "lru_wf (lru_push_front key s)"
proof -
  have d1: "distinct (map fst (lru_keys s))" and d2: "distinct (map snd (lru_keys s))"
    and m: "\<And>k j. lru_map s k = Some j \<longleftrightarrow> (j, k) \<in> set (lru_keys s)"
    and b: "\<And>n. n \<in> set (lru_keys s) \<Longrightarrow> fst n < next_node s"
    using assms by (auto simp: lru_wf_def)
  have fresh: "next_node s \<notin> fst ` set (lru_keys s)" using b by force
  have "((lru_map s)(key \<mapsto> next_node s)) k = Some j
        \<longleftrightarrow> (j, k) \<in> set ((next_node s, key) # lru_keys s)" for k j
  proof (cases "k = key")
    case True
    have "(j, key) \<notin> set (lru_keys s)" using assms(2) by force
    with True show ?thesis by auto
  next
    case False
    then show ?thesis by (simp add: m)
  qed
  moreover have "\<forall>n \<in> set ((next_node s, key) # lru_keys s). fst n < Suc (next_node s)"
    using b by (auto simp: less_Suc_eq)
  ultimately show ?thesis using d1 d2 fresh assms(2) unfolding lru_wf_def by simp
qed

lemma evict_back_fields [simp]:
  "max_cache_size (evict_back s) = max_cache_size s"
  "persistence_file (evict_back s) = persistence_file s"
  "next_node (evict_back s) = next_node s"
  "dirty (evict_back s) = True"
  "lru_keys (evict_back s) = butlast (lru_keys s)"
  "lru_map (evict_back s) = (lru_map s)(snd (last (lru_keys s)) := None)"
  "store (evict_back s) = (store s)(snd (last (lru_keys s)) := None)"
  "evicted_keys (evict_back s) =
     (if store s (snd (last (lru_keys s))) \<noteq> None
      then (evicted_keys s)(snd (last (lru_keys s)) \<mapsto> True) else evicted_keys s)"
  by (simp_all add: evict_back_def Let_def)

lemma in_butlast_iff:
  "distinct xs \<Longrightarrow> xs \<noteq> [] \<Longrightarrow> x \<in> set (butlast xs) \<longleftrightarrow> x \<in> set xs \<and> x \<noteq> last xs"
proof -
  assume d: "distinct xs" and ne: "xs \<noteq> []"
  then have "xs = butlast xs @ [last xs]" by simp
  then obtain ys where xs: "xs = ys @ [last xs]" and ys: "ys = butlast xs" by blast
  from d xs have "last xs \<notin> set ys" by (metis distinct_append distinct.simps(2) disjoint_iff list.set_intros(1))
  moreover from xs have "set xs = insert (last xs) (set ys)" by (metis Un_insert_right append_Nil2 list.simps(15) set_append)
  ultimately show ?thesis using ys by auto
qed

lemma evict_back_wf:
  assumes "lru_wf s" and "lru_keys s \<noteq> []"
  shows "lru_wf (evict_back s)"
proof -
  have d1: "distinct (map fst (lru_keys s))" and d2: "distinct (map snd (lru_keys s))"
    and m: "\<And>k j. lru_map s k = Some j \<longleftrightarrow> (j, k) \<in> set (lru_keys s)"
    and b: "\<And>n. n \<in> set (lru_keys s) \<Longrightarrow> fst n < next_node s"
    using assms by (auto simp: lru_wf_def)
  have d0: "distinct (lru_keys s)" using d1 by (simp add: distinct_map)
  have inj: "inj_on snd (set (lru_keys s))" using d2 by (simp add: distinct_map)
  let ?ek = "snd (last (lru_keys s))"
  have lastin: "last (lru_keys s) \<in> set (lru_keys s)" using assms(2) by simp
  have "distinct (map fst (butlast (lru_keys s)))" using d1 by (simp add: map_butlast distinct_butlast)
  moreover have "distinct (map snd (butlast (lru_keys s)))" using d2 by (simp add: map_butlast distinct_butlast)
  moreover have "((lru_map s)(?ek := None)) k = Some j \<longleftrightarrow> (j, k) \<in> set (butlast (lru_keys s))" for k j
  proof (cases "k = ?ek")
    case True
    have "(j, ?ek) \<notin> set (butlast (lru_keys s))"
    proof
      assume a: "(j, ?ek) \<in> set (butlast (lru_keys s))"
      then have in_l: "(j, ?ek) \<in> set (lru_keys s)" and nl: "(j, ?ek) \<noteq> last (lru_keys s)"
        using d0 assms(2) by (simp_all add: in_butlast_iff)
      have "snd (j, ?ek) = snd (last (lru_keys s))" by simp
      with inj in_l lastin have "(j, ?ek) = last (lru_keys s)" by (meson inj_onD)
      with nl show False by simp
    qed
    with True show ?thesis by simp
  next
    case False
    then have "(j, k) \<noteq> last (lru_keys s)" by (metis snd_conv)
    with False show ?thesis using d0 assms(2) by (simp add: m in_butlast_iff)
  qed
  moreover have "\<forall>n \<in> set (butlast (lru_keys s)). fst n < next_node s"
    using b by (metis in_set_butlastD)
  ultimately show ?thesis unfolding lru_wf_def by simp
qed


lemma updateLRU_fields [simp]:
  "max_cache_size (updateLRU key s) = max_cache_size s"
  "persistence_file (updateLRU key s) = persistence_file s"
  by (simp_all add: updateLRU_def Let_def)

lemma lru_remove_length:
  "length (lru_keys (lru_remove key s)) \<le> length (lru_keys s)"
  by (simp add: lru_remove_def list_erase_def split: option.splits)

lemma updateLRU_step:
  assumes wf: "lru_wf s"
    and len: "length (lru_keys (lru_remove key s)) \<le> max_cache_size s"
    and pos: "0 < max_cache_size s"
    and doms: "insert key (dom (store s)) = insert key (dom (lru_map s))"
  shows "lru_wf (updateLRU key s)"
    and "length (lru_keys (updateLRU key s)) \<le> max_cache_size s"
    and "dom (lru_map (updateLRU key s)) = insert key (dom (store (updateLRU key s)))"
    and "store (updateLRU key s) key = store s key"
    and "evicted_keys (updateLRU key s) key = evicted_keys s key"
    and "\<exists>ks. map snd (lru_keys (updateLRU key s)) = key # ks"
proof -
  let ?r = "lru_remove key s"
  let ?p = "lru_push_front key ?r"
  have wr: "lru_wf ?r" using wf by (rule lru_remove_wf)
  have nk: "key \<notin> snd ` set (lru_keys ?r)" using wf by (rule lru_remove_no_key)
  have wp: "lru_wf ?p" using wr nk by (rule lru_push_front_wf)
  have dp: "dom (lru_map ?p) = insert key (dom (store ?p))" using doms by auto
  show "lru_wf (updateLRU key s)"
    using wp by (simp add: updateLRU_def Let_def evict_back_wf)
  show "length (lru_keys (updateLRU key s)) \<le> max_cache_size s"
    using len by (simp add: updateLRU_def Let_def)
  have ek: "snd (last (lru_keys ?p)) \<noteq> key" if "max_cache_size s < length (lru_keys ?p)"
  proof -
    from that pos have "lru_keys ?r \<noteq> []" by auto
    then have "last (lru_keys ?p) \<in> set (lru_keys ?r)" by simp
    with nk show ?thesis by force
  qed
  show "dom (lru_map (updateLRU key s)) = insert key (dom (store (updateLRU key s)))"
  proof (cases "max_cache_size s < length (lru_keys ?p)")
    case True
    then have "updateLRU key s = evict_back ?p" by (simp add: updateLRU_def Let_def)
    moreover have "dom (lru_map (evict_back ?p)) = insert key (dom (store (evict_back ?p)))"
      using dp ek [OF True] by (simp del: lru_push_front_fields) auto
    ultimately show ?thesis by simp
  next
    case False
    then have "updateLRU key s = ?p" by (simp add: updateLRU_def Let_def)
    with dp show ?thesis by simp
  qed
  show "store (updateLRU key s) key = store s key"
  proof (cases "max_cache_size s < length (lru_keys ?p)")
    case True
    then have "updateLRU key s = evict_back ?p" by (simp add: updateLRU_def Let_def)
    with ek [OF True] show ?thesis by simp
  next
    case False
    then have "updateLRU key s = ?p" by (simp add: updateLRU_def Let_def)
    then show ?thesis by simp
  qed
  show "evicted_keys (updateLRU key s) key = evicted_keys s key"
  proof (cases "max_cache_size s < length (lru_keys ?p)")
    case True
    then have "updateLRU key s = evict_back ?p" by (simp add: updateLRU_def Let_def)
    with ek [OF True] show ?thesis by simp
  next
    case False
    then have "updateLRU key s = ?p" by (simp add: updateLRU_def Let_def)
    then show ?thesis by simp
  qed
  show "\<exists>ks. map snd (lru_keys (updateLRU key s)) = key # ks"
  proof (cases "max_cache_size s < length (lru_keys ?p)")
    case True
    then have u: "updateLRU key s = evict_back ?p" by (simp add: updateLRU_def Let_def)
    from True pos have "lru_keys ?r \<noteq> []" by auto
    then have "butlast (lru_keys ?p) = (next_node ?r, key) # butlast (lru_keys ?r)" by simp
    with u show ?thesis by simp
  next
    case False
    then have "updateLRU key s = ?p" by (simp add: updateLRU_def Let_def)
    then show ?thesis by simp
  qed
qed


lemma restore_loop_lookup:
  "restore_loop key inp s =
     (case file_lookup key inp of None \<Rightarrow> s | Some val \<Rightarrow> restored key val s)"
proof (induction key inp s rule: restore_loop.induct)
  case (1 key inp s)
  note unf = restore_loop.simps [of key inp s] file_lookup.simps [of key inp]
  show ?case
  proof (cases "getline (CHR 0x09) inp")
    case None
    then show ?thesis by (simp add: unf)
  next
    case (Some x)
    then obtain line_key inp1 where a: "getline (CHR 0x09) inp = Some (line_key, inp1)"
      by (cases x) simp
    show ?thesis
    proof (cases "getline (CHR 0x0A) inp1")
      case None
      with a show ?thesis by (simp add: unf)
    next
      case (Some y)
      then obtain val inp2 where b: "getline (CHR 0x0A) inp1 = Some (val, inp2)"
        by (cases y) simp
      show ?thesis
      proof (cases "line_key = key")
        case True
        with a b show ?thesis by (simp add: unf restored_def)
      next
        case False
        have "restore_loop key inp2 s =
            (case file_lookup key inp2 of None \<Rightarrow> s | Some val \<Rightarrow> restored key val s)"
          by (rule "1.IH" [OF a refl b refl False])
        with a b False show ?thesis by (simp add: unf)
      qed
    qed
  qed
qed

lemma restoreFromDisk_cases:
  "restoreFromDisk key s =
     (case persistence_file s of
        None \<Rightarrow> s
      | Some inp \<Rightarrow> (case file_lookup key inp of None \<Rightarrow> s | Some val \<Rightarrow> restored key val s))"
  by (simp add: restoreFromDisk_def restore_loop_lookup split: option.splits)

lemma restored_fields [simp]:
  "store (restored key val s) = (store s)(key \<mapsto> val)"
  "evicted_keys (restored key val s) = (evicted_keys s)(key := None)"
  "max_cache_size (restored key val s) = max_cache_size s"
  "persistence_file (restored key val s) = persistence_file s"
  "dirty (restored key val s) = dirty s"
  "next_node (restored key val s) = Suc (next_node s)"
  "lru_map (restored key val s) = (lru_map s)(key \<mapsto> next_node s)"
  "lru_keys (restored key val s) = (next_node s, key) # lru_keys s"
  by (simp_all add: restored_def)

lemma lru_wf_irrelevant [simp]:
  "lru_wf (s\<lparr>store := a\<rparr>) = lru_wf s"
  "lru_wf (s\<lparr>evicted_keys := b\<rparr>) = lru_wf s"
  "lru_wf (s\<lparr>dirty := c\<rparr>) = lru_wf s"
  "lru_wf (s\<lparr>persistence_file := d\<rparr>) = lru_wf s"
  by (simp_all add: lru_wf_def)

lemma restored_wf:
  assumes "lru_wf s" and "lru_map s key = None"
  shows "lru_wf (restored key val s)"
proof -
  from assms have "key \<notin> snd ` set (lru_keys s)" by (force simp: lru_wf_def)
  with assms(1) have "lru_wf (lru_push_front key (s\<lparr>store := (store s)(key \<mapsto> val)\<rparr>))"
    by (simp add: lru_push_front_wf)
  then show ?thesis by (simp add: restored_def)
qed

lemma engine_inv_set:
  assumes "engine_inv s"
  shows "engine_inv (BlinkDB_set key val s)"
proof -
  from assms have wf: "lru_wf s" and pos: "0 < max_cache_size s"
    and doms: "insert key (dom (store s)) = insert key (dom (lru_map s))"
    and len: "length (lru_keys (lru_remove key s)) \<le> max_cache_size s"
    using lru_remove_length [of key s] by (auto simp: engine_inv_def)
  note u = updateLRU_step [OF wf len pos doms]
  show ?thesis using u(1,2,3) pos by (simp add: engine_inv_def BlinkDB_set_def Let_def)
qed

lemma engine_inv_del:
  assumes "engine_inv s"
  shows "engine_inv (snd (BlinkDB_del key s))"
proof (cases "store s key")
  case None
  with assms show ?thesis by (simp add: BlinkDB_del_def)
next
  case (Some v)
  from assms have wf: "lru_wf (lru_remove key s)" by (simp add: engine_inv_def lru_remove_wf)
  moreover have "length (lru_keys (lru_remove key s)) \<le> max_cache_size s"
    using assms lru_remove_length [of key s] by (simp add: engine_inv_def)
  moreover have "dom ((store s)(key := None)) = dom ((lru_map s)(key := None))"
    using assms by (simp add: engine_inv_def)
  ultimately show ?thesis using Some assms by (simp add: BlinkDB_del_def engine_inv_def Let_def)
qed

lemma engine_inv_flush: "engine_inv s \<Longrightarrow> engine_inv (flush_tick ord opened s)"
  by (simp add: flush_tick_def persistToFile_def engine_inv_def)

lemma get_touch_inv:
  assumes wf: "lru_wf s"
    and len: "length (lru_keys (lru_remove key s)) \<le> max_cache_size s"
    and pos: "0 < max_cache_size s"
    and doms: "dom (store s) = dom (lru_map s)"
    and res: "store s key \<noteq> None"
  shows "fst (get_touch key val s) = Inr val" and "engine_inv (snd (get_touch key val s))"
proof -
  have d: "insert key (dom (store s)) = insert key (dom (lru_map s))" using doms by simp
  note u = updateLRU_step [OF wf len pos d]
  from u(4) res have k: "store (updateLRU key s) key \<noteq> None" by simp
  then show "fst (get_touch key val s) = Inr val" by (simp add: get_touch_def Let_def)
  from k have "insert key (dom (store (updateLRU key s))) = dom (store (updateLRU key s))" by auto
  with u(1,2,3) pos show "engine_inv (snd (get_touch key val s))"
    by (simp add: get_touch_def Let_def engine_inv_def)
qed

lemma engine_inv_get:
  assumes "engine_inv s"
  shows "\<exists>v. fst (BlinkDB_get key s) = Inr v" and "engine_inv (snd (BlinkDB_get key s))"
proof -
  from assms have wf: "lru_wf s" and pos: "0 < max_cache_size s"
    and doms: "dom (store s) = dom (lru_map s)"
    and len0: "length (lru_keys s) \<le> max_cache_size s"
    by (auto simp: engine_inv_def)
  have len: "length (lru_keys (lru_remove key s)) \<le> max_cache_size s"
    using len0 lru_remove_length [of key s] by simp
  have "(\<exists>v. fst (BlinkDB_get key s) = Inr v) \<and> engine_inv (snd (BlinkDB_get key s))"
  proof (cases "store s key")
    case (Some val)
    then have "BlinkDB_get key s = get_touch key val s" by (simp add: BlinkDB_get_def)
    with get_touch_inv [OF wf len pos doms, of val] Some show ?thesis by simp
  next
    case None
    show ?thesis
    proof (cases "evicted_keys s key = None")
      case True
      with None assms show ?thesis by (simp add: BlinkDB_get_def)
    next
      case False
      show ?thesis
      proof (cases "store (restoreFromDisk key s) key")
        case n2: None
        then have same: "restoreFromDisk key s = s"
          by (auto simp: restoreFromDisk_cases split: option.splits)
        with None False n2 assms show ?thesis by (simp add: BlinkDB_get_def Let_def)
      next
        case (Some val)
        with None obtain v where r: "restoreFromDisk key s = restored key v s"
          by (auto simp: restoreFromDisk_cases split: option.splits)
        let ?s1 = "restored key v s"
        from None doms have nm: "lru_map s key = None" by auto
        have wf1: "lru_wf ?s1" using wf nm by (rule restored_wf)
        have "lru_map ?s1 key = Some (next_node s)" by simp
        with wf1 have "lru_remove key ?s1
            = ?s1\<lparr>lru_keys := remove1 (next_node s, key) (lru_keys ?s1),
                   lru_map := (lru_map ?s1)(key := None)\<rparr>"
          by (rule lru_remove_present)
        then have len1: "length (lru_keys (lru_remove key ?s1)) \<le> max_cache_size ?s1"
          using len0 by simp
        have pos1: "0 < max_cache_size ?s1" using pos by simp
        have doms1: "dom (store ?s1) = dom (lru_map ?s1)" using doms by simp
        have res1: "store ?s1 key \<noteq> None" by simp
        from Some r have "BlinkDB_get key s = get_touch key val ?s1"
          using None False by (simp add: BlinkDB_get_def Let_def)
        with get_touch_inv [OF wf1 len1 pos1 doms1 res1, of val] show ?thesis by simp
      qed
    qed
  qed
  then show "\<exists>v. fst (BlinkDB_get key s) = Inr v" and "engine_inv (snd (BlinkDB_get key s))"
    by simp_all
qed


subsection \<open>Every run of a fresh engine keeps the invariant\<close>

lemma BlinkDB_new_absent:
  "BlinkDB_new capacity None =
     \<lparr>store = Map.empty, lru_keys = [], lru_map = Map.empty, evicted_keys = Map.empty,
      max_cache_size = capacity, persistence_file = None, dirty = False, next_node = 0\<rparr>"
  by (simp add: BlinkDB_new_def loadFromFile_def)

lemma engine_inv_new: "0 < capacity \<Longrightarrow> engine_inv (BlinkDB_new capacity None)"
  by (simp add: BlinkDB_new_absent engine_inv_def lru_wf_def)

lemma engine_inv_step:
  assumes "engine_inv s"
  shows "\<exists>s'. step x s = Inr s' \<and> engine_inv s'"
proof (cases x)
  case (SET k v)
  with assms show ?thesis by (simp add: engine_inv_set)
next
  case (GET k)
  obtain r s' where g: "BlinkDB_get k s = (r, s')" by (cases "BlinkDB_get k s")
  with engine_inv_get [OF assms, of k] obtain v where "r = Inr v" and "engine_inv s'" by auto
  with GET g show ?thesis by simp
next
  case (DEL k)
  with assms show ?thesis by (simp add: engine_inv_del)
next
  case (FLUSH ord opened)
  with assms show ?thesis by (simp add: engine_inv_flush)
qed

lemma engine_inv_run:
  "engine_inv s \<Longrightarrow> \<exists>s'. run ops s = Inr s' \<and> engine_inv s'"
proof (induction ops arbitrary: s)
  case Nil
  then show ?case by simp
next
  case (Cons x xs)
  from engine_inv_step [OF Cons.prems, of x] obtain s1 where
    s1: "step x s = Inr s1" and i1: "engine_inv s1" by blast
  from Cons.IH [OF i1] obtain s' where "run xs s1 = Inr s'" and "engine_inv s'" by blast
  with s1 show ?case by simp
qed

lemma reachable_inv:
  assumes "0 < capacity" and "run ops (BlinkDB_new capacity None) = Inr s"
  shows "engine_inv s"
  using engine_inv_run [OF engine_inv_new [OF assms(1)], of ops] assms(2) by auto

lemma get_resident:
  assumes inv: "engine_inv s" and res: "store s key = Some val"
  shows "BlinkDB_get key s = (Inr val, lru_push_front key (lru_remove key s))"
proof -
  from inv have wf: "lru_wf s" and doms: "dom (store s) = dom (lru_map s)"
    and len: "length (lru_keys s) \<le> max_cache_size s"
    by (auto simp: engine_inv_def)
  from res doms obtain i where i: "lru_map s key = Some i" by auto
  have eq: "lru_remove key s
      = s\<lparr>lru_keys := remove1 (i, key) (lru_keys s), lru_map := (lru_map s)(key := None)\<rparr>"
    using wf i by (rule lru_remove_present)
  from wf i have "(i, key) \<in> set (lru_keys s)" by (simp add: lru_wf_def)
  then have "length (remove1 (i, key) (lru_keys s)) = length (lru_keys s) - 1"
    and "lru_keys s \<noteq> []"
    by (auto simp: length_remove1)
  with len eq have "\<not> max_cache_size s < length (lru_keys (lru_push_front key (lru_remove key s)))"
    by (cases "lru_keys s") auto
  then have "updateLRU key s = lru_push_front key (lru_remove key s)"
    by (simp add: updateLRU_def Let_def)
  with res show ?thesis by (simp add: BlinkDB_get_def get_touch_def Let_def)
qed

subsection \<open>Filling the cache\<close>

lemma set_all_simps [simp]:
  "set_all [] s = s"
  "set_all ((k, v) # kvs) s = set_all kvs (BlinkDB_set k v s)"
  "set_all (xs @ ys) s = set_all ys (set_all xs s)"
  by (simp_all add: set_all_def)

lemma set_new_key:
  assumes inv: "engine_inv s" and new: "store s k = None"
    and room: "length (lru_keys s) < max_cache_size s"
  shows "BlinkDB_set k v s = (lru_push_front k s)\<lparr>store := (store s)(k \<mapsto> v), dirty := True\<rparr>"
proof -
  from inv new have "lru_map s k = None" by (auto simp: engine_inv_def)
  then have "lru_remove k s = s" by (rule lru_remove_absent)
  with room have "updateLRU k s = lru_push_front k s" by (simp add: updateLRU_def Let_def)
  then show ?thesis by (simp add: BlinkDB_set_def Let_def)
qed

lemma set_new_key_full:
  assumes inv: "engine_inv s" and new: "store s k = None"
    and full: "length (lru_keys s) = max_cache_size s"
  shows "BlinkDB_set k v s
      = (evict_back (lru_push_front k s))
          \<lparr>store := (store s)(snd (last (lru_keys s)) := None, k \<mapsto> v), dirty := True\<rparr>"
    and "snd (last (lru_keys s)) \<noteq> k"
    and "store s (snd (last (lru_keys s))) \<noteq> None"
proof -
  from inv new have nm: "lru_map s k = None" by (auto simp: engine_inv_def)
  then have r: "lru_remove k s = s" by (rule lru_remove_absent)
  from inv full have ne: "lru_keys s \<noteq> []" by (auto simp: engine_inv_def)
  with full r have u: "updateLRU k s = evict_back (lru_push_front k s)"
    by (simp add: updateLRU_def Let_def)
  from ne have l: "last (lru_keys (lru_push_front k s)) = last (lru_keys s)" by simp
  from u l show "BlinkDB_set k v s
      = (evict_back (lru_push_front k s))
          \<lparr>store := (store s)(snd (last (lru_keys s)) := None, k \<mapsto> v), dirty := True\<rparr>"
    by (simp add: BlinkDB_set_def Let_def)
  from ne have "last (lru_keys s) \<in> set (lru_keys s)" by simp
  then have "(fst (last (lru_keys s)), snd (last (lru_keys s))) \<in> set (lru_keys s)" by simp
  with inv have m: "lru_map s (snd (last (lru_keys s))) = Some (fst (last (lru_keys s)))"
    unfolding engine_inv_def lru_wf_def by blast
  with nm show "snd (last (lru_keys s)) \<noteq> k" by auto
  from m inv show "store s (snd (last (lru_keys s))) \<noteq> None"
    by (auto simp: engine_inv_def)
qed

lemma set_all_fill:
  assumes "engine_inv s" and "distinct (map fst kvs)"
    and "fst ` set kvs \<inter> dom (store s) = {}"
    and "length (lru_keys s) + length kvs \<le> max_cache_size s"
  shows "engine_inv (set_all kvs s)
       \<and> map snd (lru_keys (set_all kvs s)) = rev (map fst kvs) @ map snd (lru_keys s)
       \<and> dom (store (set_all kvs s)) = dom (store s) \<union> fst ` set kvs
       \<and> (\<forall>k. k \<notin> fst ` set kvs \<longrightarrow> store (set_all kvs s) k = store s k)
       \<and> evicted_keys (set_all kvs s) = evicted_keys s
       \<and> persistence_file (set_all kvs s) = persistence_file s
       \<and> max_cache_size (set_all kvs s) = max_cache_size s"
  using assms
proof (induction kvs arbitrary: s)
  case Nil
  then show ?case by simp
next
  case (Cons kv kvs)
  obtain k v where kv: "kv = (k, v)" by (cases kv)
  let ?s1 = "BlinkDB_set k v s"
  from Cons.prems kv have new: "store s k = None" by auto
  from Cons.prems have room: "length (lru_keys s) < max_cache_size s" by simp
  have s1: "?s1 = (lru_push_front k s)\<lparr>store := (store s)(k \<mapsto> v), dirty := True\<rparr>"
    using Cons.prems(1) new room by (rule set_new_key)
  have i1: "engine_inv ?s1" using Cons.prems(1) by (rule engine_inv_set)
  have d1: "distinct (map fst kvs)" using Cons.prems(2) by simp
  have x1: "fst ` set kvs \<inter> dom (store ?s1) = {}"
    using Cons.prems(2,3) kv by (auto simp: s1)
  have l1: "length (lru_keys ?s1) + length kvs \<le> max_cache_size ?s1"
    using Cons.prems(4) by (simp add: s1)
  note ih = Cons.IH [OF i1 d1 x1 l1]
  have knot: "k \<notin> fst ` set kvs" using Cons.prems(2) kv by auto
  from ih have "store (set_all kvs ?s1) k = store ?s1 k" using knot by blast
  show ?case
  proof (intro conjI allI impI)
    show "engine_inv (set_all (kv # kvs) s)" using ih kv by simp
    show "map snd (lru_keys (set_all (kv # kvs) s)) = rev (map fst (kv # kvs)) @ map snd (lru_keys s)"
      using ih kv by (simp add: s1)
    show "dom (store (set_all (kv # kvs) s)) = dom (store s) \<union> fst ` set (kv # kvs)"
      using ih kv by (auto simp: s1)
    show "evicted_keys (set_all (kv # kvs) s) = evicted_keys s" using ih kv by (simp add: s1)
    show "persistence_file (set_all (kv # kvs) s) = persistence_file s" using ih kv by (simp add: s1)
    show "max_cache_size (set_all (kv # kvs) s) = max_cache_size s" using ih kv by (simp add: s1)
  next
    fix k' assume "k' \<notin> fst ` set (kv # kvs)"
    then have "k' \<notin> fst ` set kvs" and "k' \<noteq> k" using kv by auto
    with ih have "store (set_all kvs ?s1) k' = store ?s1 k'" by blast
    with \<open>k' \<noteq> k\<close> show "store (set_all (kv # kvs) s) k' = store s k'" using kv by (simp add: s1)
  qed
qed


lemma set_all_overflow:
  assumes inv: "engine_inv s" and dist: "distinct (map fst kvs)"
    and new: "fst ` set kvs \<inter> dom (store s) = {}"
    and full: "length (lru_keys s) + length kvs = Suc (max_cache_size s)"
    and ne: "kvs \<noteq> []"
    and ek: "ek = last (rev (map fst (butlast kvs)) @ map snd (lru_keys s))"
  shows "engine_inv (set_all kvs s)
       \<and> store (set_all kvs s) ek = None
       \<and> evicted_keys (set_all kvs s) = (evicted_keys s)(ek \<mapsto> True)
       \<and> persistence_file (set_all kvs s) = persistence_file s
       \<and> dom (store (set_all kvs s)) = (dom (store s) \<union> fst ` set kvs) - {ek}
       \<and> (\<forall>k. k \<noteq> ek \<and> k \<notin> fst ` set kvs \<longrightarrow> store (set_all kvs s) k = store s k)"
proof -
  from ne obtain pre k v where kvs: "kvs = pre @ [(k, v)]"
    by (metis rev_exhaust surj_pair)
  let ?s1 = "set_all pre s"
  have d1: "distinct (map fst pre)" and knew: "k \<notin> fst ` set pre"
    using dist kvs by auto
  have x1: "fst ` set pre \<inter> dom (store s) = {}" and ks: "store s k = None"
    using new kvs by auto
  have l1: "length (lru_keys s) + length pre \<le> max_cache_size s"
    using full kvs by simp
  from set_all_fill [OF inv d1 x1 l1]
  have i1: "engine_inv ?s1"
    and keys1: "map snd (lru_keys ?s1) = rev (map fst pre) @ map snd (lru_keys s)"
    and dom1: "dom (store ?s1) = dom (store s) \<union> fst ` set pre"
    and same1: "\<And>k. k \<notin> fst ` set pre \<Longrightarrow> store ?s1 k = store s k"
    and ev1: "evicted_keys ?s1 = evicted_keys s"
    and pf1: "persistence_file ?s1 = persistence_file s"
    and mc1: "max_cache_size ?s1 = max_cache_size s"
    by blast+
  have "length (map snd (lru_keys ?s1)) = length pre + length (lru_keys s)"
    unfolding keys1 by simp
  then have full1: "length (lru_keys ?s1) = max_cache_size ?s1"
    using full kvs mc1 by simp
  have new1: "store ?s1 k = None" using same1 [OF knew] ks by simp
  note f = set_new_key_full [OF i1 new1 full1]
  from i1 full1 have ne1: "lru_keys ?s1 \<noteq> []" by (auto simp: engine_inv_def)
  then have "snd (last (lru_keys ?s1)) = last (map snd (lru_keys ?s1))"
    by (simp add: last_map)
  then have ek1: "snd (last (lru_keys ?s1)) = ek" using keys1 ek kvs by simp
  have st: "set_all kvs s = BlinkDB_set k v ?s1" using kvs by simp
  have "store (evict_back (lru_push_front k ?s1)) = (store ?s1)(ek := None)"
    using ne1 ek1 by simp
  have evk: "evicted_keys (BlinkDB_set k v ?s1) = (evicted_keys s)(ek \<mapsto> True)"
    using f(3) ne1 ek1 ev1 by (simp add: f(1))
  have sto: "store (BlinkDB_set k v ?s1) = (store ?s1)(ek := None, k \<mapsto> v)"
    using ek1 by (simp add: f(1))
  have knek: "ek \<noteq> k" using f(2) ek1 by simp
  show ?thesis
  proof (intro conjI allI impI)
    show "engine_inv (set_all kvs s)" unfolding st using i1 by (rule engine_inv_set)
    show "store (set_all kvs s) ek = None" unfolding st sto using knek by simp
    show "evicted_keys (set_all kvs s) = (evicted_keys s)(ek \<mapsto> True)" unfolding st by (rule evk)
    show "persistence_file (set_all kvs s) = persistence_file s"
      unfolding st using pf1 by (simp add: f(1))
    show "dom (store (set_all kvs s)) = (dom (store s) \<union> fst ` set kvs) - {ek}"
      unfolding st sto using dom1 knek kvs by auto
  next
    fix k' assume "k' \<noteq> ek \<and> k' \<notin> fst ` set kvs"
    then have "k' \<noteq> ek" and "k' \<noteq> k" and "k' \<notin> fst ` set pre" using kvs by auto
    then show "store (set_all kvs s) k' = store s k'"
      unfolding st sto using same1 [of k'] by simp
  qed
qed

subsection \<open>Reading an evicted key\<close>

lemma get_evicted_miss:
  assumes "store s key = None" and "log_lookup key s = None"
  shows "BlinkDB_get key s = (Inr ''NULL'', s)"
proof -
  from assms(2) have "restoreFromDisk key s = s"
    by (auto simp: restoreFromDisk_cases log_lookup_def split: option.splits)
  with assms(1) show ?thesis by (simp add: BlinkDB_get_def Let_def)
qed

lemma get_evicted_hit:
  assumes inv: "engine_inv s" and abs: "store s key = None"
    and ev: "evicted_keys s key \<noteq> None" and hit: "log_lookup key s = Some val"
  shows "fst (BlinkDB_get key s) = Inr val"
    and "store (snd (BlinkDB_get key s)) key = Some val"
    and "evicted_keys (snd (BlinkDB_get key s)) key = None"
    and "\<exists>ks. map snd (lru_keys (snd (BlinkDB_get key s))) = key # ks"
    and "engine_inv (snd (BlinkDB_get key s))"
proof -
  let ?s1 = "restored key val s"
  from inv have wf: "lru_wf s" and pos: "0 < max_cache_size s"
    and doms: "dom (store s) = dom (lru_map s)"
    and len0: "length (lru_keys s) \<le> max_cache_size s"
    by (auto simp: engine_inv_def)
  from hit have r: "restoreFromDisk key s = ?s1"
    by (auto simp: restoreFromDisk_cases log_lookup_def split: option.splits)
  from abs doms have nm: "lru_map s key = None" by auto
  have wf1: "lru_wf ?s1" using wf nm by (rule restored_wf)
  have "lru_map ?s1 key = Some (next_node s)" by simp
  with wf1 have "lru_remove key ?s1
      = ?s1\<lparr>lru_keys := remove1 (next_node s, key) (lru_keys ?s1),
             lru_map := (lru_map ?s1)(key := None)\<rparr>"
    by (rule lru_remove_present)
  then have len1: "length (lru_keys (lru_remove key ?s1)) \<le> max_cache_size ?s1"
    using len0 by simp
  have pos1: "0 < max_cache_size ?s1" using pos by simp
  have doms1: "dom (store ?s1) = dom (lru_map ?s1)" using doms by simp
  then have d1: "insert key (dom (store ?s1)) = insert key (dom (lru_map ?s1))" by simp
  have res1: "store ?s1 key \<noteq> None" by simp
  have g: "BlinkDB_get key s = get_touch key val ?s1"
    using abs ev r by (simp add: BlinkDB_get_def Let_def)
  note u = updateLRU_step [OF wf1 len1 pos1 d1]
  note t = get_touch_inv [OF wf1 len1 pos1 doms1 res1, of val]
  show "fst (BlinkDB_get key s) = Inr val" using g t(1) by simp
  show "engine_inv (snd (BlinkDB_get key s))" using g t(2) by simp
  show "store (snd (BlinkDB_get key s)) key = Some val"
    using g u(4) by (simp add: get_touch_def Let_def)
  show "evicted_keys (snd (BlinkDB_get key s)) key = None"
    using g u(5) by (simp add: get_touch_def Let_def)
  show "\<exists>ks. map snd (lru_keys (snd (BlinkDB_get key s))) = key # ks"
    using g u(6) by (simp add: get_touch_def Let_def)
qed

subsection \<open>Looking a key up in a file that a flush wrote\<close>

lemma getline_delim:
  assumes "d \<notin> set a"
  shows "getline d (a @ d # rest) = Some (a, rest)"
proof -
  have t: "takeWhile (\<lambda>x. x \<noteq> d) (a @ d # rest) = a"
    using assms by (auto simp: takeWhile_tail)
  have dr: "dropWhile (\<lambda>x. x \<noteq> d) (a @ d # rest) = d # rest"
    using assms by (auto simp: dropWhile_append)
  obtain c cs where "a @ d # rest = c # cs" by (cases "a @ d # rest") auto
  then have "getline d (a @ d # rest)
      = Some (takeWhile (\<lambda>x. x \<noteq> d) (a @ d # rest), drop 1 (dropWhile (\<lambda>x. x \<noteq> d) (a @ d # rest)))"
    by simp
  with t dr show ?thesis by simp
qed

lemma file_lookup_Nil: "file_lookup key [] = None"
  by (simp add: file_lookup.simps [of key "[]"])

lemma file_lookup_record:
  assumes "CHR 0x09 \<notin> set k'" and "CHR 0x0A \<notin> set v'"
  shows "file_lookup key (k' @ [CHR 0x09] @ v' @ [CHR 0x0A] @ rest)
       = (if k' = key then Some v' else file_lookup key rest)"
proof -
  have a: "getline (CHR 0x09) (k' @ [CHR 0x09] @ v' @ [CHR 0x0A] @ rest)
      = Some (k', v' @ [CHR 0x0A] @ rest)"
    using getline_delim [OF assms(1), of "v' @ [CHR 0x0A] @ rest"] by simp
  have b: "getline (CHR 0x0A) (v' @ [CHR 0x0A] @ rest) = Some (v', rest)"
    using getline_delim [OF assms(2), of rest] by simp
  show ?thesis
    by (subst file_lookup.simps) (simp only: a b option.case prod.case)
qed

lemma file_lookup_render:
  assumes "\<And>k v. k \<in> set ord \<Longrightarrow> m k = Some v \<Longrightarrow> CHR 0x09 \<notin> set k \<and> CHR 0x0A \<notin> set v"
  shows "file_lookup key (concat (map (record_line m) ord)) = (if key \<in> set ord then m key else None)"
  using assms
proof (induction ord)
  case Nil
  then show ?case by (simp add: file_lookup_Nil)
next
  case (Cons k ord)
  have ih: "file_lookup key (concat (map (record_line m) ord)) = (if key \<in> set ord then m key else None)"
    using Cons.prems by (intro Cons.IH) auto
  show ?case
  proof (cases "m k")
    case None
    then have "record_line m k = []" by (simp add: record_line_def)
    with ih None show ?thesis by auto
  next
    case (Some v)
    then have rl: "record_line m k = k @ [CHR 0x09] @ v @ [CHR 0x0A]" by (simp add: record_line_def)
    from Cons.prems [of k v] Some have c: "CHR 0x09 \<notin> set k" "CHR 0x0A \<notin> set v" by auto
    have "file_lookup key (concat (map (record_line m) (k # ord)))
        = file_lookup key (k @ [CHR 0x09] @ v @ [CHR 0x0A] @ concat (map (record_line m) ord))"
      by (simp add: rl)
    also have "\<dots> = (if k = key then Some v else file_lookup key (concat (map (record_line m) ord)))"
      using c by (rule file_lookup_record)
    finally show ?thesis using ih Some by auto
  qed
qed

subsection \<open>Two runs that overflow the cache\<close>

text \<open>
  The capacity is 10000, so a key is evicted after 10001 keys at the earliest.
  \<open>fill_keys n\<close> are the \<open>n\<close> keys \<^verbatim>\<open>k\<close>, \<^verbatim>\<open>kk\<close>, \<^verbatim>\<open>kkk\<close>, ..., each with the value \<^verbatim>\<open>v\<close>.

  \<^item> \<open>overflowed_db\<close>: a fresh engine with no file, after \<^verbatim>\<open>SET\<close> of the first 10001 of them. Key
    \<^verbatim>\<open>k\<close> has been evicted; nothing was flushed.
  \<^item> \<open>stale_log_db\<close>: the same, but with a turn of the flush loop between the first \<^verbatim>\<open>SET\<close>
    and the second. Key \<^verbatim>\<open>k\<close> has been evicted and the file holds its record.
  \<^item> \<open>remarked_db\<close>: \<open>stale_log_db\<close> after \<^verbatim>\<open>SET k w\<close>. Key \<^verbatim>\<open>k\<close> is resident again; \<^verbatim>\<open>set\<close> does not
    touch its marker.
  \<^item> \<open>flushed_once_db\<close>: the engine on the way to \<open>stale_log_db\<close>, after \<^verbatim>\<open>SET k v\<close> and the flush.
\<close>

definition fill_keys :: "nat \<Rightarrow> (string \<times> string) list" where
  "fill_keys n = map (\<lambda>i. (replicate (Suc i) (CHR ''k''), ''v'')) [0..<n]"

definition overflowed_db :: BlinkDB where
  "overflowed_db = set_all (fill_keys (Suc MAX_CAPACITY)) (BlinkDB_new MAX_CAPACITY None)"

definition stale_log_db :: BlinkDB where
  "stale_log_db =
     set_all (tl (fill_keys (Suc MAX_CAPACITY)))
       (flush_tick [''k''] True (BlinkDB_set ''k'' ''v'' (BlinkDB_new MAX_CAPACITY None)))"

definition remarked_db :: BlinkDB where
  "remarked_db = BlinkDB_set ''k'' ''w'' stale_log_db"

definition flushed_once_db :: BlinkDB where
  "flushed_once_db = flush_tick [''k''] True (BlinkDB_set ''k'' ''v'' (BlinkDB_new MAX_CAPACITY None))"

lemma updateLRU_store_sub:
  assumes "store (updateLRU key s) k = Some v"
  shows "store s k = Some v"
proof (cases "max_cache_size s < length (lru_keys (lru_push_front key (lru_remove key s)))")
  case True
  then have "updateLRU key s = evict_back (lru_push_front key (lru_remove key s))"
    by (simp add: updateLRU_def Let_def)
  with assms show ?thesis by (simp split: if_splits)
next
  case False
  then have "updateLRU key s = lru_push_front key (lru_remove key s)"
    by (simp add: updateLRU_def Let_def)
  with assms show ?thesis by simp
qed

lemma set_all_store_origin:
  "store (set_all kvs s) k = Some v \<Longrightarrow> (k, v) \<in> set kvs \<or> store s k = Some v"
proof (induction kvs arbitrary: s)
  case Nil
  then show ?case by simp
next
  case (Cons kv kvs)
  obtain k' v' where kv: "kv = (k', v')" by (cases kv)
  from Cons.prems kv have "store (set_all kvs (BlinkDB_set k' v' s)) k = Some v" by simp
  from Cons.IH [OF this] show ?case
  proof
    assume "(k, v) \<in> set kvs"
    then show ?thesis by simp
  next
    assume a: "store (BlinkDB_set k' v' s) k = Some v"
    show ?thesis
    proof (cases "k = k'")
      case True
      with a have "v = v'" by (simp add: BlinkDB_set_def Let_def)
      with True kv show ?thesis by simp
    next
      case False
      with a have "store (updateLRU k' s) k = Some v" by (simp add: BlinkDB_set_def Let_def)
      then have "store s k = Some v" by (rule updateLRU_store_sub)
      then show ?thesis by simp
    qed
  qed
qed

lemma fresh_overflow:
  assumes "0 < capacity" and "distinct (map fst kvs)" and "length kvs = Suc capacity"
  shows "engine_inv (set_all kvs (BlinkDB_new capacity None))"
    and "store (set_all kvs (BlinkDB_new capacity None)) (fst (hd kvs)) = None"
    and "evicted_keys (set_all kvs (BlinkDB_new capacity None)) = [fst (hd kvs) \<mapsto> True]"
    and "dom (store (set_all kvs (BlinkDB_new capacity None))) = fst ` set (tl kvs)"
    and "persistence_file (set_all kvs (BlinkDB_new capacity None)) = None"
proof -
  let ?s = "BlinkDB_new capacity None"
  have inv: "engine_inv ?s" using assms(1) by (rule engine_inv_new)
  have new: "fst ` set kvs \<inter> dom (store ?s) = {}" by (simp add: BlinkDB_new_absent)
  have full: "length (lru_keys ?s) + length kvs = Suc (max_cache_size ?s)"
    using assms(3) by (simp add: BlinkDB_new_absent)
  from assms(1,3) obtain kv kvs' where kvs: "kvs = kv # kvs'" and ne': "kvs' \<noteq> []"
    by (cases kvs) auto
  have ne: "kvs \<noteq> []" using kvs by simp
  have "rev (map fst (butlast kvs)) \<noteq> []" using kvs ne' by simp
  then have "last (rev (map fst (butlast kvs))) = hd (map fst (butlast kvs))"
    by (simp add: last_rev)
  also have "\<dots> = fst (hd kvs)" using kvs ne' by simp
  finally have ek: "fst (hd kvs) = last (rev (map fst (butlast kvs)) @ map snd (lru_keys ?s))"
    by (simp add: BlinkDB_new_absent)
  note o = set_all_overflow [OF inv assms(2) new full ne ek]
  have "fst (hd kvs) \<notin> fst ` set (tl kvs)" using assms(2) kvs by auto
  then have t: "fst ` set kvs - {fst (hd kvs)} = fst ` set (tl kvs)" using kvs by auto
  from o show "engine_inv (set_all kvs ?s)" by simp
  from o show "store (set_all kvs ?s) (fst (hd kvs)) = None" by simp
  from o show "evicted_keys (set_all kvs ?s) = [fst (hd kvs) \<mapsto> True]"
    by (simp add: BlinkDB_new_absent)
  from o t show "dom (store (set_all kvs ?s)) = fst ` set (tl kvs)"
    by (simp add: BlinkDB_new_absent)
  from o show "persistence_file (set_all kvs ?s) = None" by (simp add: BlinkDB_new_absent)
qed

lemma length_fill_keys [simp]: "length (fill_keys n) = n"
  by (simp add: fill_keys_def)

lemma distinct_fill_keys: "distinct (map fst (fill_keys n))"
proof -
  have "inj_on (\<lambda>i. replicate (Suc i) (CHR ''k'')) (set [0..<n])"
  proof (rule inj_onI)
    fix x y assume "replicate (Suc x) (CHR ''k'') = replicate (Suc y) (CHR ''k'')"
    then have "length (replicate (Suc x) (CHR ''k'')) = length (replicate (Suc y) (CHR ''k''))"
      by (rule arg_cong)
    then show "x = y" by simp
  qed
  then show ?thesis by (simp add: fill_keys_def distinct_map comp_def)
qed

lemma hd_fill_keys: "hd (fill_keys (Suc n)) = (''k'', ''v'')"
proof -
  have "[0..<Suc n] = 0 # [Suc 0..<Suc n]" by (rule upt_conv_Cons) simp
  then show ?thesis by (simp add: fill_keys_def del: upt_Suc)
qed

lemma fill_keys_chars:
  "(k, v) \<in> set (fill_keys n) \<Longrightarrow> CHR 0x09 \<notin> set k \<and> CHR 0x0A \<notin> set v"
  by (auto simp: fill_keys_def)

lemma MAX_CAPACITY_pos: "0 < MAX_CAPACITY"
  by (simp add: MAX_CAPACITY_def)

lemma overflowed_db_facts:
  shows "engine_inv overflowed_db"
    and "store overflowed_db ''k'' = None"
    and "evicted_keys overflowed_db = [''k'' \<mapsto> True]"
    and "persistence_file overflowed_db = None"
    and "store overflowed_db k = Some v \<Longrightarrow> CHR 0x09 \<notin> set k \<and> CHR 0x0A \<notin> set v"
proof -
  note f = fresh_overflow [OF MAX_CAPACITY_pos distinct_fill_keys [of "Suc MAX_CAPACITY"] length_fill_keys]
  from f(1) show "engine_inv overflowed_db" by (simp add: overflowed_db_def)
  from f(2) show "store overflowed_db ''k'' = None" by (simp add: overflowed_db_def hd_fill_keys)
  from f(3) show "evicted_keys overflowed_db = [''k'' \<mapsto> True]"
    by (simp add: overflowed_db_def hd_fill_keys)
  from f(5) show "persistence_file overflowed_db = None" by (simp add: overflowed_db_def)
  assume "store overflowed_db k = Some v"
  then have "(k, v) \<in> set (fill_keys (Suc MAX_CAPACITY))"
    using set_all_store_origin [of "fill_keys (Suc MAX_CAPACITY)" "BlinkDB_new MAX_CAPACITY None" k v]
    by (simp add: overflowed_db_def BlinkDB_new_absent)
  then show "CHR 0x09 \<notin> set k \<and> CHR 0x0A \<notin> set v" by (rule fill_keys_chars)
qed


lemma run_append:
  "run (xs @ ys) s = (case run xs s of Inl e \<Rightarrow> Inl e | Inr s' \<Rightarrow> run ys s')"
  by (induction xs arbitrary: s) (auto split: sum.splits)

lemma run_sets: "run (map (\<lambda>(k, v). SET k v) kvs) s = Inr (set_all kvs s)"
  by (induction kvs arbitrary: s) auto

lemma flushed_once_db_facts:
  shows "engine_inv flushed_once_db"
    and "store flushed_once_db = [''k'' \<mapsto> ''v'']"
    and "map snd (lru_keys flushed_once_db) = [''k'']"
    and "evicted_keys flushed_once_db = Map.empty"
    and "max_cache_size flushed_once_db = MAX_CAPACITY"
    and "persistence_file flushed_once_db = Some (''k'' @ [CHR 0x09] @ ''v'' @ [CHR 0x0A])"
proof -
  let ?f = "BlinkDB_new MAX_CAPACITY None"
  have inv: "engine_inv ?f" using MAX_CAPACITY_pos by (rule engine_inv_new)
  have "store ?f ''k'' = None" and "length (lru_keys ?f) < max_cache_size ?f"
    using MAX_CAPACITY_pos by (simp_all add: BlinkDB_new_absent)
  with inv have s1: "BlinkDB_set ''k'' ''v'' ?f
      = (lru_push_front ''k'' ?f)\<lparr>store := (store ?f)(''k'' \<mapsto> ''v''), dirty := True\<rparr>"
    by (rule set_new_key)
  have "engine_inv (BlinkDB_set ''k'' ''v'' ?f)" using inv by (rule engine_inv_set)
  then show "engine_inv flushed_once_db" unfolding flushed_once_db_def by (rule engine_inv_flush)
  have e: "flushed_once_db
      = flush_tick [''k''] True
          ((lru_push_front ''k'' ?f)\<lparr>store := (store ?f)(''k'' \<mapsto> ''v''), dirty := True\<rparr>)"
    by (simp only: flushed_once_db_def s1)
  show "store flushed_once_db = [''k'' \<mapsto> ''v'']"
    unfolding e by (simp add: flush_tick_def persistToFile_def BlinkDB_new_absent)
  show "map snd (lru_keys flushed_once_db) = [''k'']"
    unfolding e by (simp add: flush_tick_def persistToFile_def BlinkDB_new_absent)
  show "evicted_keys flushed_once_db = Map.empty"
    unfolding e by (simp add: flush_tick_def persistToFile_def BlinkDB_new_absent)
  show "max_cache_size flushed_once_db = MAX_CAPACITY"
    unfolding e by (simp add: flush_tick_def persistToFile_def BlinkDB_new_absent)
  show "persistence_file flushed_once_db = Some (''k'' @ [CHR 0x09] @ ''v'' @ [CHR 0x0A])"
    unfolding e
    by (simp add: flush_tick_def persistToFile_def BlinkDB_new_absent record_line_def)
qed

lemma stale_log_db_facts:
  shows "engine_inv stale_log_db"
    and "store stale_log_db ''k'' = None"
    and "evicted_keys stale_log_db = [''k'' \<mapsto> True]"
    and "persistence_file stale_log_db = Some (''k'' @ [CHR 0x09] @ ''v'' @ [CHR 0x0A])"
    and "log_lookup ''k'' stale_log_db = Some ''v''"
proof -
  let ?kvs = "tl (fill_keys (Suc MAX_CAPACITY))"
  note f = flushed_once_db_facts
  have whole: "fill_keys (Suc MAX_CAPACITY) = (''k'', ''v'') # ?kvs"
    using hd_fill_keys [of MAX_CAPACITY] length_fill_keys [of "Suc MAX_CAPACITY"]
    by (cases "fill_keys (Suc MAX_CAPACITY)") auto
  have "distinct (map fst ((''k'', ''v'') # ?kvs))"
    using distinct_fill_keys [of "Suc MAX_CAPACITY"] whole by simp
  then have dist: "distinct (map fst ?kvs)" and knot: "''k'' \<notin> fst ` set ?kvs" by auto
  have new: "fst ` set ?kvs \<inter> dom (store flushed_once_db) = {}" using knot by (simp add: f(2))
  have "length (lru_keys flushed_once_db) = length (map snd (lru_keys flushed_once_db))" by simp
  then have l1: "length (lru_keys flushed_once_db) = 1" unfolding f(3) by simp
  have full: "length (lru_keys flushed_once_db) + length ?kvs = Suc (max_cache_size flushed_once_db)"
    by (simp add: l1 f(5))
  have ne: "?kvs \<noteq> []" using MAX_CAPACITY_pos by (simp add: length_0_conv [symmetric] del: length_0_conv)
  have ek: "''k'' = last (rev (map fst (butlast ?kvs)) @ map snd (lru_keys flushed_once_db))"
    by (simp add: f(3))
  note o = set_all_overflow [OF f(1) dist new full ne ek]
  have st: "stale_log_db = set_all ?kvs flushed_once_db"
    by (simp add: stale_log_db_def flushed_once_db_def)
  from o show "engine_inv stale_log_db" by (simp add: st)
  from o show "store stale_log_db ''k'' = None" by (simp add: st)
  from o show "evicted_keys stale_log_db = [''k'' \<mapsto> True]" by (simp add: st f(4))
  from o show pf: "persistence_file stale_log_db = Some (''k'' @ [CHR 0x09] @ ''v'' @ [CHR 0x0A])"
    by (simp add: st f(6))
  have "file_lookup ''k'' (''k'' @ [CHR 0x09] @ ''v'' @ [CHR 0x0A] @ []) = Some ''v''"
    by (subst file_lookup_record) simp_all
  then show "log_lookup ''k'' stale_log_db = Some ''v''" by (simp add: log_lookup_def pf)
qed

lemma stale_log_db_run:
  "run ([SET ''k'' ''v'', FLUSH [''k''] True]
        @ map (\<lambda>(k, v). SET k v) (tl (fill_keys (Suc MAX_CAPACITY))))
     (BlinkDB_new MAX_CAPACITY None) = Inr stale_log_db"
  by (simp add: run_append run_sets stale_log_db_def del: append.simps)


lemma set_all_dirty: "kvs \<noteq> [] \<Longrightarrow> dirty (set_all kvs s)"
proof -
  assume "kvs \<noteq> []"
  then obtain pre k v where "kvs = pre @ [(k, v)]" by (metis rev_exhaust surj_pair)
  then show ?thesis by (simp add: BlinkDB_set_def Let_def)
qed

lemma overflowed_db_dirty: "dirty overflowed_db"
proof -
  have "fill_keys (Suc MAX_CAPACITY) \<noteq> []"
    by (simp add: length_0_conv [symmetric] del: length_0_conv)
  then show ?thesis unfolding overflowed_db_def by (rule set_all_dirty)
qed

lemma updateLRU_keeps_markers:
  "evicted_keys s k = Some True \<Longrightarrow> evicted_keys (updateLRU key s) k = Some True"
  by (simp add: updateLRU_def Let_def)

lemma remarked_db_facts:
  shows "engine_inv remarked_db"
    and "store remarked_db ''k'' = Some ''w''"
    and "evicted_keys remarked_db ''k'' = Some True"
    and "log_lookup ''k'' remarked_db = Some ''v''"
proof -
  show "engine_inv remarked_db"
    unfolding remarked_db_def using stale_log_db_facts(1) by (rule engine_inv_set)
  show "store remarked_db ''k'' = Some ''w''"
    by (simp add: remarked_db_def BlinkDB_set_def Let_def)
  have "evicted_keys stale_log_db ''k'' = Some True" by (simp add: stale_log_db_facts(3))
  then have "evicted_keys (updateLRU ''k'' stale_log_db) ''k'' = Some True"
    by (rule updateLRU_keeps_markers)
  then show "evicted_keys remarked_db ''k'' = Some True"
    by (simp add: remarked_db_def BlinkDB_set_def Let_def)
  have "persistence_file remarked_db = persistence_file stale_log_db"
    by (simp add: remarked_db_def BlinkDB_set_def Let_def)
  then show "log_lookup ''k'' remarked_db = Some ''v''"
    using stale_log_db_facts(5) by (simp add: log_lookup_def)
qed

subsection \<open>An engine started on a file\<close>

text \<open>
  \<open>load_record\<close> is the body of the loop of \<^verbatim>\<open>loadFromFile\<close>, \<open>load_all\<close> the loop over a list of
  records, \<open>file_of kvs\<close> the file that holds the records \<open>kvs\<close> in this order, in the format
  \<^verbatim>\<open>persistToFile\<close> writes, and \<open>empty_db\<close> the database the constructor starts from. The loop
  takes every record of the file: it compares neither the number of records with the
  capacity nor a key with the keys it has seen (\<open>BlinkDB_new_file_of\<close>).
\<close>

definition load_record :: "string \<times> string \<Rightarrow> BlinkDB \<Rightarrow> BlinkDB" where
  "load_record kv s = lru_push_front (fst kv) (s\<lparr>store := (store s)(fst kv \<mapsto> snd kv)\<rparr>)"

definition load_all :: "(string \<times> string) list \<Rightarrow> BlinkDB \<Rightarrow> BlinkDB" where
  "load_all kvs s = fold load_record kvs s"

definition file_of :: "(string \<times> string) list \<Rightarrow> string" where
  "file_of kvs = concat (map (\<lambda>kv. fst kv @ [CHR 0x09] @ snd kv @ [CHR 0x0A]) kvs)"

lemma load_all_simps [simp]:
  "load_all [] s = s"
  "load_all (kv # kvs) s = load_all kvs (load_record kv s)"
  "load_all (xs @ ys) s = load_all ys (load_all xs s)"
  by (simp_all add: load_all_def)

lemma load_record_fields [simp]:
  "store (load_record kv s) = (store s)(fst kv \<mapsto> snd kv)"
  "evicted_keys (load_record kv s) = evicted_keys s"
  "max_cache_size (load_record kv s) = max_cache_size s"
  "persistence_file (load_record kv s) = persistence_file s"
  "dirty (load_record kv s) = dirty s"
  "next_node (load_record kv s) = Suc (next_node s)"
  "lru_map (load_record kv s) = (lru_map s)(fst kv \<mapsto> next_node s)"
  "lru_keys (load_record kv s) = (next_node s, fst kv) # lru_keys s"
  by (simp_all add: load_record_def)

lemma load_loop_Nil: "load_loop [] s = s"
  by (simp add: load_loop.simps [of "[]" s])

lemma load_loop_record:
  assumes "CHR 0x09 \<notin> set k" and "CHR 0x0A \<notin> set v"
  shows "load_loop (k @ [CHR 0x09] @ v @ [CHR 0x0A] @ rest) s = load_loop rest (load_record (k, v) s)"
proof -
  have a: "getline (CHR 0x09) (k @ [CHR 0x09] @ v @ [CHR 0x0A] @ rest)
      = Some (k, v @ [CHR 0x0A] @ rest)"
    using getline_delim [OF assms(1), of "v @ [CHR 0x0A] @ rest"] by simp
  have b: "getline (CHR 0x0A) (v @ [CHR 0x0A] @ rest) = Some (v, rest)"
    using getline_delim [OF assms(2), of rest] by simp
  show ?thesis
    by (subst load_loop.simps) (simp only: a b option.case prod.case load_record_def fst_conv snd_conv)
qed

lemma load_loop_file_of:
  assumes "\<And>k v. (k, v) \<in> set kvs \<Longrightarrow> CHR 0x09 \<notin> set k \<and> CHR 0x0A \<notin> set v"
  shows "load_loop (file_of kvs) s = load_all kvs s"
  using assms
proof (induction kvs arbitrary: s)
  case Nil
  then show ?case by (simp add: file_of_def load_loop_Nil)
next
  case (Cons kv kvs)
  obtain k v where kv: "kv = (k, v)" by (cases kv)
  from Cons.prems [of k v] kv have c: "CHR 0x09 \<notin> set k" "CHR 0x0A \<notin> set v" by auto
  have f: "file_of (kv # kvs) = k @ [CHR 0x09] @ v @ [CHR 0x0A] @ file_of kvs"
    by (simp add: file_of_def kv)
  have "load_loop (file_of (kv # kvs)) s = load_loop (file_of kvs) (load_record (k, v) s)"
    unfolding f using c by (rule load_loop_record)
  also have "\<dots> = load_all kvs (load_record (k, v) s)"
    using Cons.prems by (intro Cons.IH) auto
  finally show ?case by (simp add: kv)
qed

lemma load_all_fields [simp]:
  "evicted_keys (load_all kvs s) = evicted_keys s"
  "max_cache_size (load_all kvs s) = max_cache_size s"
  "persistence_file (load_all kvs s) = persistence_file s"
  "dirty (load_all kvs s) = dirty s"
  "next_node (load_all kvs s) = next_node s + length kvs"
  by (induction kvs arbitrary: s) simp_all

lemma load_all_list:
  "\<exists>ys. lru_keys (load_all kvs s) = ys @ lru_keys s \<and> length ys = length kvs
        \<and> (\<forall>n \<in> set ys. next_node s \<le> fst n)"
proof (induction kvs arbitrary: s)
  case Nil
  then show ?case by simp
next
  case (Cons kv kvs)
  from Cons.IH [of "load_record kv s"] obtain ys where
    ys: "lru_keys (load_all kvs (load_record kv s)) = ys @ lru_keys (load_record kv s)"
    "length ys = length kvs" "\<forall>n \<in> set ys. next_node (load_record kv s) \<le> fst n"
    by blast
  let ?zs = "ys @ [(next_node s, fst kv)]"
  have "lru_keys (load_all (kv # kvs) s) = ?zs @ lru_keys s" using ys(1) by simp
  moreover have "length ?zs = length (kv # kvs)" using ys(2) by simp
  moreover have "\<forall>n \<in> set ?zs. next_node s \<le> fst n" using ys(3) by auto
  ultimately show ?case by blast
qed

lemma load_all_ids:
  assumes "\<forall>n \<in> set (lru_keys s). fst n < next_node s"
  shows "\<forall>n \<in> set (lru_keys (load_all kvs s)). fst n < next_node (load_all kvs s)"
  using assms
proof (induction kvs arbitrary: s)
  case Nil
  then show ?case by simp
next
  case (Cons kv kvs)
  have "\<forall>n \<in> set (lru_keys (load_record kv s)). fst n < next_node (load_record kv s)"
    using Cons.prems by (auto simp: less_Suc_eq)
  from Cons.IH [OF this] show ?case by simp
qed

lemma load_all_other_key:
  "key \<notin> fst ` set kvs \<Longrightarrow>
   store (load_all kvs s) key = store s key \<and> lru_map (load_all kvs s) key = lru_map s key"
  by (induction kvs arbitrary: s) auto

lemma load_all_resident:
  "store s key \<noteq> None \<or> key \<in> fst ` set kvs \<Longrightarrow> store (load_all kvs s) key \<noteq> None"
  by (induction kvs arbitrary: s) auto

definition empty_db :: "nat \<Rightarrow> string option \<Rightarrow> BlinkDB" where
  "empty_db capacity file =
     \<lparr>store = Map.empty, lru_keys = [], lru_map = Map.empty, evicted_keys = Map.empty,
      max_cache_size = capacity, persistence_file = file, dirty = False, next_node = 0\<rparr>"

lemma empty_db_fields [simp]:
  "store (empty_db capacity fl) = Map.empty"
  "lru_keys (empty_db capacity fl) = []"
  "lru_map (empty_db capacity fl) = Map.empty"
  "evicted_keys (empty_db capacity fl) = Map.empty"
  "max_cache_size (empty_db capacity fl) = capacity"
  "persistence_file (empty_db capacity fl) = fl"
  "dirty (empty_db capacity fl) = False"
  "next_node (empty_db capacity fl) = 0"
  by (simp_all add: empty_db_def)

lemma BlinkDB_new_file_of:
  assumes "\<And>k v. (k, v) \<in> set kvs \<Longrightarrow> CHR 0x09 \<notin> set k \<and> CHR 0x0A \<notin> set v"
  shows "BlinkDB_new capacity (Some (file_of kvs)) = load_all kvs (empty_db capacity (Some (file_of kvs)))"
proof -
  have "BlinkDB_new capacity (Some (file_of kvs))
      = load_loop (file_of kvs) (empty_db capacity (Some (file_of kvs)))"
    by (simp add: BlinkDB_new_def loadFromFile_def empty_db_def)
  then show ?thesis using assms by (simp add: load_loop_file_of)
qed

text \<open>\<^verbatim>\<open>updateLRU\<close> on a list that is full once the key's own node is taken out: the last node is
  evicted, whatever key it holds.\<close>

lemma updateLRU_front:
  assumes lk: "lru_keys t = (i, key) # rest" and lm: "lru_map t key = Some i"
    and ids: "\<forall>n \<in> set rest. fst n \<noteq> i" and ne: "rest \<noteq> []"
    and full: "max_cache_size t \<le> length rest"
  shows "store (updateLRU key t) = (store t)(snd (last rest) := None)"
    and "evicted_keys (updateLRU key t)
         = (if store t (snd (last rest)) \<noteq> None
            then (evicted_keys t)(snd (last rest) \<mapsto> True) else evicted_keys t)"
    and "dirty (updateLRU key t)"
    and "lru_keys (updateLRU key t) = (next_node t, key) # butlast rest"
    and "next_node (updateLRU key t) = Suc (next_node t)"
proof -
  have "list_erase i (lru_keys t) = rest"
    using ids by (simp add: lk list_erase_def filter_id_conv)
  then have r: "lru_remove key t = t\<lparr>lru_keys := rest, lru_map := (lru_map t)(key := None)\<rparr>"
    using lm by (simp add: lru_remove_def)
  let ?p = "lru_push_front key (lru_remove key t)"
  have pk: "lru_keys ?p = (next_node t, key) # rest" by (simp add: r)
  then have "max_cache_size ?p < length (lru_keys ?p)" using full by simp
  then have u: "updateLRU key t = evict_back ?p" by (simp add: updateLRU_def Let_def)
  have l: "last (lru_keys ?p) = last rest" unfolding pk using ne by simp
  show "store (updateLRU key t) = (store t)(snd (last rest) := None)"
    unfolding u by (simp add: l del: lru_push_front_fields(8))
  show "evicted_keys (updateLRU key t)
         = (if store t (snd (last rest)) \<noteq> None
            then (evicted_keys t)(snd (last rest) \<mapsto> True) else evicted_keys t)"
    unfolding u by (simp add: l del: lru_push_front_fields(8))
  show "dirty (updateLRU key t)" unfolding u by simp
  show "lru_keys (updateLRU key t) = (next_node t, key) # butlast rest"
    unfolding u using ne by (simp add: pk del: lru_push_front_fields(8))
  show "next_node (updateLRU key t) = Suc (next_node t)" unfolding u by (simp add: r)
qed

lemma loaded_list:
  assumes "pre = (ek, ev) # others"
  shows "\<exists>ys. lru_keys (load_all pre (empty_db capacity file)) = ys @ [(0, ek)]
            \<and> length ys = length others"
    and "\<forall>n \<in> set (lru_keys (load_all pre (empty_db capacity file))).
            fst n < next_node (load_all pre (empty_db capacity file))"
proof -
  let ?e = "empty_db capacity file"
  have "lru_keys (load_record (ek, ev) ?e) = [(0, ek)]" by simp
  with load_all_list [of others "load_record (ek, ev) ?e"]
  show "\<exists>ys. lru_keys (load_all pre ?e) = ys @ [(0, ek)] \<and> length ys = length others"
    unfolding assms by auto
  have "\<forall>n \<in> set (lru_keys ?e). fst n < next_node ?e" by simp
  then show "\<forall>n \<in> set (lru_keys (load_all pre ?e)). fst n < next_node (load_all pre ?e)"
    by (rule load_all_ids)
qed

lemma restart_touch:
  assumes pre: "pre = (ek, ev) # others" and full: "length pre = capacity"
    and R: "R = load_all (pre @ [(key, val)]) (empty_db capacity file)"
  shows "store R key = Some val"
    and "store R ek \<noteq> None"
    and "evicted_keys R = Map.empty"
    and "\<not> dirty R"
    and "length (lru_keys R) = Suc capacity"
    and "BlinkDB_get key R
         = (if key = ek then Inl dangling_iterator else Inr val, updateLRU key R)"
    and "store (updateLRU key R) = (store R)(ek := None)"
    and "evicted_keys (updateLRU key R) = [ek \<mapsto> True]"
    and "dirty (updateLRU key R)"
    and "length (lru_keys (updateLRU key R)) = capacity"
proof -
  let ?P = "load_all pre (empty_db capacity file)"
  from loaded_list(1) [OF pre, of capacity "file"] obtain ys where
    ys: "lru_keys ?P = ys @ [(0, ek)]" "length ys = length others" by blast
  have ids: "\<forall>n \<in> set (lru_keys ?P). fst n \<noteq> next_node ?P"
    using loaded_list(2) [OF pre, of capacity "file"] by auto
  have Rp: "R = load_record (key, val) ?P" by (simp add: R)
  have lk: "lru_keys R = (next_node ?P, key) # lru_keys ?P" by (simp add: Rp)
  have lm: "lru_map R key = Some (next_node ?P)" by (simp add: Rp)
  have ne: "lru_keys ?P \<noteq> []" by (simp add: ys)
  have "length (lru_keys ?P) = Suc (length others)" unfolding ys(1) by (simp add: ys(2))
  moreover have "Suc (length others) = capacity" using full by (simp add: pre)
  ultimately have len: "length (lru_keys ?P) = capacity" by (rule trans)
  have mx: "max_cache_size R \<le> length (lru_keys ?P)" by (simp add: Rp len)
  have last: "snd (last (lru_keys ?P)) = ek" by (simp add: ys)
  note u = updateLRU_front [OF lk lm ids ne mx, unfolded last]
  show sk: "store R key = Some val" by (simp add: Rp)
  have "store ?P ek \<noteq> None" by (rule load_all_resident) (simp add: pre)
  then show se: "store R ek \<noteq> None" by (simp add: Rp)
  show ev: "evicted_keys R = Map.empty" by (simp add: Rp)
  show "\<not> dirty R" by (simp add: Rp)
  show "length (lru_keys R) = Suc capacity" by (simp add: lk len)
  show "store (updateLRU key R) = (store R)(ek := None)" by (rule u(1))
  show "evicted_keys (updateLRU key R) = [ek \<mapsto> True]" using u(2) se ev by simp
  show "dirty (updateLRU key R)" by (rule u(3))
  have "0 < capacity" using full by (simp add: pre)
  then show "length (lru_keys (updateLRU key R)) = capacity" using u(4) len by simp
  show "BlinkDB_get key R
         = (if key = ek then Inl dangling_iterator else Inr val, updateLRU key R)"
    using sk by (simp add: BlinkDB_get_def get_touch_def Let_def u(1))
qed

text \<open>
  Three engines started on a file, at the capacity 10000 of the source.

  \<^item> \<open>overfull_db\<close>: the file holds 10001 records, the keys \<^verbatim>\<open>k\<close>, \<^verbatim>\<open>kk\<close>, ... of \<open>fill_keys\<close> and
    then \<^verbatim>\<open>a\<close>. All of them are resident and the list has 10001 nodes.
  \<^item> \<open>repeated_null_db\<close>: the file holds 10001 records, the first and the last of them for
    key \<^verbatim>\<open>k\<close>, with the value \<^verbatim>\<open>NULL\<close>. The list has two nodes for \<^verbatim>\<open>k\<close>, its first and its
    last.
  \<^item> \<open>twice_db\<close>: the file holds 10000 records, the first two of them for key \<^verbatim>\<open>k\<close>, and the
    engine has then run \<^verbatim>\<open>SET a 1\<close>, which evicts the last node of the list, the older node
    of \<^verbatim>\<open>k\<close>: \<^verbatim>\<open>k\<close> is marked as evicted and no longer resident, the file has its record, and
    the list still ends in a node for \<^verbatim>\<open>k\<close>.

  A flush writes such a file when a value holds a line feed: the record of one key is
  read back as two (\<open>record_line_two_records\<close>).
\<close>

definition overfull_records :: "(string \<times> string) list" where
  "overfull_records = fill_keys MAX_CAPACITY @ [(''a'', ''1'')]"

definition overfull_db :: BlinkDB where
  "overfull_db = BlinkDB_new MAX_CAPACITY (Some (file_of overfull_records))"



definition twice_records :: "(string \<times> string) list" where
  "twice_records = (''k'', ''v'') # (''k'', ''v'') # tl (fill_keys (MAX_CAPACITY - 1))"

definition twice_db :: BlinkDB where
  "twice_db = BlinkDB_set ''a'' ''1'' (BlinkDB_new MAX_CAPACITY (Some (file_of twice_records)))"

lemma record_line_two_records:
  "m k = Some (v @ [CHR 0x0A] @ k2 @ [CHR 0x09] @ v2)
   \<Longrightarrow> record_line m k = file_of [(k, v), (k2, v2)]"
  by (simp add: record_line_def file_of_def)

lemma in_tl: "x \<in> set (tl xs) \<Longrightarrow> x \<in> set xs"
  by (cases xs) auto

lemma fill_keys_MAX: "fill_keys MAX_CAPACITY = (''k'', ''v'') # tl (fill_keys MAX_CAPACITY)"
proof -
  from MAX_CAPACITY_pos obtain m where m: "MAX_CAPACITY = Suc m" by (auto dest: gr0_implies_Suc)
  have "fill_keys (Suc m) \<noteq> []" by (simp add: length_0_conv [symmetric] del: length_0_conv)
  then have "fill_keys (Suc m) = hd (fill_keys (Suc m)) # tl (fill_keys (Suc m))" by simp
  then show ?thesis unfolding m by (simp only: hd_fill_keys)
qed

lemma overfull_db_facts:
  shows "store overfull_db ''a'' = Some ''1''"
    and "store overfull_db ''k'' \<noteq> None"
    and "evicted_keys overfull_db = Map.empty"
    and "\<not> dirty overfull_db"
    and "length (lru_keys overfull_db) = Suc MAX_CAPACITY"
    and "BlinkDB_get ''a'' overfull_db = (Inr ''1'', updateLRU ''a'' overfull_db)"
    and "store (updateLRU ''a'' overfull_db) ''k'' = None"
    and "evicted_keys (updateLRU ''a'' overfull_db) = [''k'' \<mapsto> True]"
    and "dirty (updateLRU ''a'' overfull_db)"
    and "length (lru_keys (updateLRU ''a'' overfull_db)) = MAX_CAPACITY"
proof -
  have chars: "\<And>k v. (k, v) \<in> set overfull_records \<Longrightarrow> CHR 0x09 \<notin> set k \<and> CHR 0x0A \<notin> set v"
    by (auto simp: overfull_records_def dest: fill_keys_chars)
  have "overfull_db
      = load_all overfull_records (empty_db MAX_CAPACITY (Some (file_of overfull_records)))"
    unfolding overfull_db_def by (rule BlinkDB_new_file_of) (rule chars)
  note R = this [unfolded overfull_records_def]
  note t = restart_touch [OF fill_keys_MAX length_fill_keys R]
  show "store overfull_db ''a'' = Some ''1''" by (rule t(1))
  show "store overfull_db ''k'' \<noteq> None" by (rule t(2))
  show "evicted_keys overfull_db = Map.empty" by (rule t(3))
  show "\<not> dirty overfull_db" by (rule t(4))
  show "length (lru_keys overfull_db) = Suc MAX_CAPACITY" by (rule t(5))
  show "BlinkDB_get ''a'' overfull_db = (Inr ''1'', updateLRU ''a'' overfull_db)"
    using t(6) by simp
  show "store (updateLRU ''a'' overfull_db) ''k'' = None" by (simp add: t(7))
  show "evicted_keys (updateLRU ''a'' overfull_db) = [''k'' \<mapsto> True]" by (rule t(8))
  show "dirty (updateLRU ''a'' overfull_db)" by (rule t(9))
  show "length (lru_keys (updateLRU ''a'' overfull_db)) = MAX_CAPACITY" by (rule t(10))
qed


lemma updateLRU_new_full:
  assumes lm: "lru_map t key = None" and ne: "lru_keys t \<noteq> []"
    and full: "max_cache_size t \<le> length (lru_keys t)"
  shows "store (updateLRU key t) = (store t)(snd (last (lru_keys t)) := None)"
    and "evicted_keys (updateLRU key t)
         = (if store t (snd (last (lru_keys t))) \<noteq> None
            then (evicted_keys t)(snd (last (lru_keys t)) \<mapsto> True) else evicted_keys t)"
    and "lru_keys (updateLRU key t) = (next_node t, key) # butlast (lru_keys t)"
    and "next_node (updateLRU key t) = Suc (next_node t)"
proof -
  have r: "lru_remove key t = t" using lm by (rule lru_remove_absent)
  let ?p = "lru_push_front key t"
  have "max_cache_size ?p < length (lru_keys ?p)" using full by simp
  then have u: "updateLRU key t = evict_back ?p" by (simp add: updateLRU_def Let_def r)
  have l: "last (lru_keys ?p) = last (lru_keys t)" using ne by simp
  show "store (updateLRU key t) = (store t)(snd (last (lru_keys t)) := None)"
    unfolding u by (simp add: l del: lru_push_front_fields(8))
  show "evicted_keys (updateLRU key t)
         = (if store t (snd (last (lru_keys t))) \<noteq> None
            then (evicted_keys t)(snd (last (lru_keys t)) \<mapsto> True) else evicted_keys t)"
    unfolding u by (simp add: l del: lru_push_front_fields(8))
  show "lru_keys (updateLRU key t) = (next_node t, key) # butlast (lru_keys t)"
    unfolding u using ne by simp
  show "next_node (updateLRU key t) = Suc (next_node t)" unfolding u by simp
qed

lemma restart_twice:
  assumes pre: "pre = (k, v) # (k, v2) # others" and full: "length pre = capacity"
    and new: "a \<notin> fst ` set pre"
    and chars: "CHR 0x09 \<notin> set k" "CHR 0x0A \<notin> set v"
    and S: "S = BlinkDB_set a val (load_all pre (empty_db capacity (Some (file_of pre))))"
  shows "store S k = None"
    and "evicted_keys S k = Some True"
    and "log_lookup k S = Some v"
    and "BlinkDB_get k S = (Inl dangling_iterator, updateLRU k (restored k v S))"
    and "store (updateLRU k (restored k v S)) k = None"
    and "evicted_keys (updateLRU k (restored k v S)) k = Some True"
proof -
  let ?E = "empty_db capacity (Some (file_of pre))"
  let ?P = "load_all pre ?E"
  let ?P2 = "load_record (k, v2) (load_record (k, v) ?E)"
  let ?U = "updateLRU a ?P"
  let ?T = "restored k v S"
  have ak: "a \<noteq> k" using new by (auto simp: pre)
  have "lru_keys ?P2 = [(1, k), (0, k)]" by simp
  with load_all_list [of others ?P2] obtain ys where
    ys: "lru_keys ?P = ys @ [(1, k), (0, k)]" "length ys = length others"
    unfolding pre by auto
  have ids: "\<forall>n \<in> set (lru_keys ?P). fst n < next_node ?P"
    by (rule loaded_list(2) [OF pre])
  have lm: "lru_map ?P a = None" using load_all_other_key [OF new, of ?E] by simp
  have ne: "lru_keys ?P \<noteq> []" by (simp add: ys)
  have "length (lru_keys ?P) = Suc (Suc (length others))" unfolding ys(1) by (simp add: ys(2))
  moreover have "Suc (Suc (length others)) = capacity" using full by (simp add: pre)
  ultimately have len: "length (lru_keys ?P) = capacity" by (rule trans)
  have mx: "max_cache_size ?P \<le> length (lru_keys ?P)" by (simp add: len)
  have last: "snd (last (lru_keys ?P)) = k" by (simp add: ys)
  note u = updateLRU_new_full [OF lm ne mx, unfolded last]
  have resP: "store ?P k \<noteq> None" by (rule load_all_resident) (simp add: pre)
  have Sdef: "S = ?U\<lparr>store := (store ?U)(a \<mapsto> val), dirty := True\<rparr>"
    by (simp add: S BlinkDB_set_def Let_def)
  show sk: "store S k = None" using ak by (simp add: Sdef u(1))
  show ek: "evicted_keys S k = Some True" using resP by (simp add: Sdef u(2))
  have pf: "persistence_file S = Some (file_of pre)" by (simp add: Sdef)
  have "file_of pre = k @ [CHR 0x09] @ v @ [CHR 0x0A] @ file_of ((k, v2) # others)"
    by (simp add: file_of_def pre)
  then have fl: "file_lookup k (file_of pre) = Some v"
    using file_lookup_record [OF chars, of k "file_of ((k, v2) # others)"] by simp
  show ll: "log_lookup k S = Some v" by (simp add: log_lookup_def pf fl)
  have r: "restoreFromDisk k S = ?T" by (simp add: restoreFromDisk_cases pf fl)
  have bl: "butlast (lru_keys ?P) = ys @ [(1, k)]" by (simp add: ys(1) butlast_append)
  have lkS: "lru_keys S = (next_node ?P, a) # ys @ [(1, k)]" by (simp add: Sdef u(3) bl)
  have nS: "next_node S = Suc (next_node ?P)" by (simp add: Sdef u(4))
  have lkT: "lru_keys ?T = (Suc (next_node ?P), k) # (next_node ?P, a) # ys @ [(1, k)]"
    by (simp add: lkS nS)
  have lmT: "lru_map ?T k = Some (Suc (next_node ?P))" by (simp add: nS)
  have "\<forall>n \<in> set (ys @ [(1, k)]). fst n < next_node ?P" using ids by (simp add: ys(1))
  then have idsT: "\<forall>n \<in> set ((next_node ?P, a) # ys @ [(1, k)]). fst n \<noteq> Suc (next_node ?P)"
    by auto
  have neT: "(next_node ?P, a) # ys @ [(1, k)] \<noteq> []" by simp
  have "max_cache_size ?T = capacity" by (simp add: Sdef)
  moreover have "length ((next_node ?P, a) # ys @ [(1, k)]) = Suc (Suc (length others))"
    by (simp add: ys(2))
  moreover have "Suc (Suc (length others)) = capacity" using full by (simp add: pre)
  ultimately have mxT: "max_cache_size ?T \<le> length ((next_node ?P, a) # ys @ [(1, k)])"
    by simp
  have lastT: "snd (last ((next_node ?P, a) # ys @ [(1, k)])) = k" by simp
  note w = updateLRU_front [OF lkT lmT idsT neT mxT, unfolded lastT]
  show sU: "store (updateLRU k ?T) k = None" by (simp add: w(1))
  show "evicted_keys (updateLRU k ?T) k = Some True" by (simp add: w(2))
  have "store ?T k = Some v" by simp
  then show "BlinkDB_get k S = (Inl dangling_iterator, updateLRU k ?T)"
    using sk ek r sU by (simp add: BlinkDB_get_def get_touch_def Let_def)
qed

lemma fill_keys_first: "(k, v) \<in> set (fill_keys n) \<Longrightarrow> hd k = CHR ''k''"
  by (auto simp: fill_keys_def)

lemma twice_db_facts:
  shows "store twice_db ''k'' = None"
    and "evicted_keys twice_db ''k'' = Some True"
    and "log_lookup ''k'' twice_db = Some ''v''"
    and "BlinkDB_get ''k'' twice_db
         = (Inl dangling_iterator, updateLRU ''k'' (restored ''k'' ''v'' twice_db))"
    and "store (updateLRU ''k'' (restored ''k'' ''v'' twice_db)) ''k'' = None"
    and "evicted_keys (updateLRU ''k'' (restored ''k'' ''v'' twice_db)) ''k'' = Some True"
proof -
  have chars: "\<And>k v. (k, v) \<in> set twice_records \<Longrightarrow> CHR 0x09 \<notin> set k \<and> CHR 0x0A \<notin> set v"
    by (auto simp: twice_records_def dest: fill_keys_chars in_tl)
  have "BlinkDB_new MAX_CAPACITY (Some (file_of twice_records))
      = load_all twice_records (empty_db MAX_CAPACITY (Some (file_of twice_records)))"
    by (rule BlinkDB_new_file_of) (rule chars)
  then have S: "twice_db = BlinkDB_set ''a'' ''1''
      (load_all twice_records (empty_db MAX_CAPACITY (Some (file_of twice_records))))"
    by (simp only: twice_db_def)
  have len: "length twice_records = MAX_CAPACITY"
    by (simp add: twice_records_def MAX_CAPACITY_def)
  have new: "''a'' \<notin> fst ` set twice_records"
    by (auto simp: twice_records_def dest!: in_tl fill_keys_first)
  have c: "CHR 0x09 \<notin> set ''k''" "CHR 0x0A \<notin> set ''v''" by simp_all
  note t = restart_twice [OF twice_records_def len new c S]
  show "store twice_db ''k'' = None" by (rule t(1))
  show "evicted_keys twice_db ''k'' = Some True" by (rule t(2))
  show "log_lookup ''k'' twice_db = Some ''v''" by (rule t(3))
  show "BlinkDB_get ''k'' twice_db
         = (Inl dangling_iterator, updateLRU ''k'' (restored ''k'' ''v'' twice_db))" by (rule t(4))
  show "store (updateLRU ''k'' (restored ''k'' ''v'' twice_db)) ''k'' = None" by (rule t(5))
  show "evicted_keys (updateLRU ''k'' (restored ''k'' ''v'' twice_db)) ''k'' = Some True"
    by (rule t(6))
qed

text \<open>An engine started on a file of at most \<open>capacity\<close> records with pairwise different keys
  satisfies the invariant, and so does every state it reaches (\<open>engine_inv_run\<close>).\<close>

lemma load_record_inv:
  assumes wf: "lru_wf s" and doms: "dom (store s) = dom (lru_map s)"
    and new: "lru_map s (fst kv) = None"
  shows "lru_wf (load_record kv s)"
    and "dom (store (load_record kv s)) = dom (lru_map (load_record kv s))"
proof -
  from wf new have "fst kv \<notin> snd ` set (lru_keys s)" by (force simp: lru_wf_def)
  with wf have "lru_wf (lru_push_front (fst kv) (s\<lparr>store := (store s)(fst kv \<mapsto> snd kv)\<rparr>))"
    by (simp add: lru_push_front_wf)
  then show "lru_wf (load_record kv s)" by (simp add: load_record_def)
  show "dom (store (load_record kv s)) = dom (lru_map (load_record kv s))"
    using doms by simp
qed

lemma load_all_inv:
  assumes "lru_wf s" and "dom (store s) = dom (lru_map s)"
    and "distinct (map fst kvs)" and "\<forall>k \<in> fst ` set kvs. lru_map s k = None"
  shows "lru_wf (load_all kvs s) \<and> dom (store (load_all kvs s)) = dom (lru_map (load_all kvs s))
       \<and> length (lru_keys (load_all kvs s)) = length kvs + length (lru_keys s)"
  using assms
proof (induction kvs arbitrary: s)
  case Nil
  then show ?case by simp
next
  case (Cons kv kvs)
  from Cons.prems(4) have new: "lru_map s (fst kv) = None" by simp
  note r = load_record_inv [OF Cons.prems(1,2) new]
  have d: "distinct (map fst kvs)" using Cons.prems(3) by simp
  have n: "\<forall>k \<in> fst ` set kvs. lru_map (load_record kv s) k = None"
    using Cons.prems(3,4) by (force simp: image_iff)
  from Cons.IH [OF r d n] show ?case by simp
qed

lemma engine_inv_restart:
  assumes pos: "0 < capacity" and d: "distinct (map fst kvs)" and len: "length kvs \<le> capacity"
    and chars: "\<And>k v. (k, v) \<in> set kvs \<Longrightarrow> CHR 0x09 \<notin> set k \<and> CHR 0x0A \<notin> set v"
  shows "engine_inv (BlinkDB_new capacity (Some (file_of kvs)))"
proof -
  let ?E = "empty_db capacity (Some (file_of kvs))"
  have e: "BlinkDB_new capacity (Some (file_of kvs)) = load_all kvs ?E"
    by (rule BlinkDB_new_file_of) (rule chars)
  have "lru_wf ?E" by (simp add: lru_wf_def)
  moreover have "dom (store ?E) = dom (lru_map ?E)" by simp
  moreover have "\<forall>k \<in> fst ` set kvs. lru_map ?E k = None" by simp
  ultimately have "lru_wf (load_all kvs ?E)
      \<and> dom (store (load_all kvs ?E)) = dom (lru_map (load_all kvs ?E))
      \<and> length (lru_keys (load_all kvs ?E)) = length kvs + length (lru_keys ?E)"
    using d by (intro load_all_inv)
  then show ?thesis unfolding e using pos len by (simp add: engine_inv_def)
qed

section \<open>The claims\<close>

text \<open>
  "A fresh engine" below is \<open>BlinkDB_new capacity None\<close> with a capacity that is not zero: the
  engine as its constructor leaves it when there is no file on disk. The source's capacity
  is \<open>MAX_CAPACITY\<close>.

  What \<^verbatim>\<open>get\<close> does depends on the state it finds, so the claims about \<^verbatim>\<open>get\<close> are stated for
  the states that satisfy \<open>engine_inv\<close>: the capacity is not zero, the LRU list is no longer
  than the capacity, and \<open>store\<close>, \<open>lru_map\<close> and the list hold the same keys, each key in one
  node of the list, the one \<open>lru_map\<close> gives for it. Every state a fresh engine reaches by
  \<^verbatim>\<open>set\<close>, \<^verbatim>\<open>get\<close>, \<^verbatim>\<open>del\<close> and flushes is one (\<open>reachable_inv\<close>), and so is every state reached by
  an engine started on a file of at most \<open>capacity\<close> records with pairwise different keys
  (\<open>engine_inv_restart\<close>, \<open>engine_inv_run\<close>). An engine started on another file need not be
  one, and there the claims fail as they are stated (\<open>overfull_db\<close>, \<open>repeated_null_db\<close>,
  \<open>twice_db\<close>).
\<close>

text \<open>The engine after \<^verbatim>\<open>SET a 1; SET b 2\<close> on a fresh engine of the capacity the source
  gives it, with no file on disk.\<close>

definition two_keys_db :: BlinkDB where
  "two_keys_db = BlinkDB_set ''b'' ''2'' (BlinkDB_set ''a'' ''1'' (BlinkDB_new MAX_CAPACITY None))"

lemma two_keys_db_run:
  "run [SET ''a'' ''1'', SET ''b'' ''2''] (BlinkDB_new MAX_CAPACITY None) = Inr two_keys_db"
  by (simp add: two_keys_db_def)

lemma two_keys_db_store: "store two_keys_db ''a'' = Some ''1''"
  by code_simp

lemma two_keys_db_lru: "map snd (lru_keys two_keys_db) = [''b'', ''a'']"
  by code_simp

lemma two_keys_db_inv: "engine_inv two_keys_db"
  using MAX_CAPACITY_pos two_keys_db_run by (rule reachable_inv)

text \<open>
  C10, as the code has it. In every state that satisfies \<open>engine_inv\<close>, \<^verbatim>\<open>get\<close> of a resident
  key returns its value and changes the LRU order only: the key moves to the front, the
  list keeps its length (nothing is evicted), and \<open>store\<close>, \<open>evicted_keys\<close>, the file and
  \<open>dirty\<close> are as before.
\<close>

theorem get_resident_frame:
  assumes "engine_inv s"
    and "store s key = Some val"
  shows "fst (BlinkDB_get key s) = Inr val
       \<and> store (snd (BlinkDB_get key s)) = store s
       \<and> evicted_keys (snd (BlinkDB_get key s)) = evicted_keys s
       \<and> persistence_file (snd (BlinkDB_get key s)) = persistence_file s
       \<and> dirty (snd (BlinkDB_get key s)) = dirty s
       \<and> max_cache_size (snd (BlinkDB_get key s)) = max_cache_size s
       \<and> map snd (lru_keys (snd (BlinkDB_get key s))) = key # remove1 key (map snd (lru_keys s))
       \<and> length (lru_keys (snd (BlinkDB_get key s))) = length (lru_keys s)"
proof -
  note inv = assms(1)
  then have wf: "lru_wf s" by (simp add: engine_inv_def)
  have g: "BlinkDB_get key s = (Inr val, lru_push_front key (lru_remove key s))"
    using inv assms(2) by (rule get_resident)
  have keys: "map snd (lru_keys (lru_remove key s)) = remove1 key (map snd (lru_keys s))"
    using wf by (rule lru_remove_keys)
  from inv assms(2) have "key \<in> dom (lru_map s)" by (auto simp: engine_inv_def)
  with wf have "key \<in> set (map snd (lru_keys s))" by (force simp: lru_wf_def)
  then have l1: "length (remove1 key (map snd (lru_keys s))) = length (lru_keys s) - 1"
    and ne: "lru_keys s \<noteq> []"
    by (auto simp: length_remove1)
  have "length (lru_keys (lru_remove key s)) = length (map snd (lru_keys (lru_remove key s)))"
    by simp
  also have "\<dots> = length (lru_keys s) - 1" using keys l1 by simp
  finally have "Suc (length (lru_keys (lru_remove key s))) = length (lru_keys s)"
    using ne by (cases "lru_keys s") simp_all
  with g keys show ?thesis by simp
qed

theorem get_resident_frame_witness:
  "engine_inv two_keys_db
   \<and> store two_keys_db ''a'' = Some ''1''
   \<and> fst (BlinkDB_get ''a'' two_keys_db) = Inr ''1''
   \<and> store (snd (BlinkDB_get ''a'' two_keys_db)) = store two_keys_db
   \<and> map snd (lru_keys (snd (BlinkDB_get ''a'' two_keys_db))) = [''a'', ''b'']
   \<and> length (lru_keys (snd (BlinkDB_get ''a'' two_keys_db))) = length (lru_keys two_keys_db)"
  using get_resident_frame [OF two_keys_db_inv two_keys_db_store] two_keys_db_inv
  by (simp add: two_keys_db_lru two_keys_db_store)

text \<open>
  C10 as stated fails. \<open>overfull_db\<close> is the engine started on a file of 10001 records, one
  more than the capacity; they are all resident and nothing is marked or dirty. There \<^verbatim>\<open>get\<close>
  of the resident key \<^verbatim>\<open>a\<close> returns its value and evicts key \<^verbatim>\<open>k\<close>: \<^verbatim>\<open>k\<close> leaves \<open>store\<close> and is
  marked in \<open>evicted_keys\<close>, \<open>dirty\<close> is set, and the list is one node shorter.
\<close>

theorem get_resident_evicts_when_overfull:
  "overfull_db = BlinkDB_new MAX_CAPACITY (Some (file_of (fill_keys MAX_CAPACITY @ [(''a'', ''1'')])))
   \<and> store overfull_db ''a'' = Some ''1''
   \<and> fst (BlinkDB_get ''a'' overfull_db) = Inr ''1''
   \<and> store overfull_db ''k'' \<noteq> None
   \<and> store (snd (BlinkDB_get ''a'' overfull_db)) ''k'' = None
   \<and> evicted_keys overfull_db ''k'' = None
   \<and> evicted_keys (snd (BlinkDB_get ''a'' overfull_db)) ''k'' = Some True
   \<and> \<not> dirty overfull_db
   \<and> dirty (snd (BlinkDB_get ''a'' overfull_db))
   \<and> length (lru_keys overfull_db) = Suc MAX_CAPACITY
   \<and> length (lru_keys (snd (BlinkDB_get ''a'' overfull_db))) = MAX_CAPACITY"
proof -
  have d: "overfull_db
      = BlinkDB_new MAX_CAPACITY (Some (file_of (fill_keys MAX_CAPACITY @ [(''a'', ''1'')])))"
    by (simp only: overfull_db_def overfull_records_def)
  have g: "snd (BlinkDB_get ''a'' overfull_db) = updateLRU ''a'' overfull_db"
    by (simp add: overfull_db_facts(6))
  have f: "fst (BlinkDB_get ''a'' overfull_db) = Inr ''1''"
    by (simp add: overfull_db_facts(6))
  have e: "evicted_keys overfull_db ''k'' = None" by (simp add: overfull_db_facts(3))
  have e': "evicted_keys (updateLRU ''a'' overfull_db) ''k'' = Some True"
    by (simp add: overfull_db_facts(8))
  show ?thesis
    unfolding g
    using d f e e' overfull_db_facts(1,2,4,5,7,9,10) by (intro conjI)
qed

text \<open>
  C8. A flush right after a successful flush leaves the file, and the whole engine, as the
  first one left them, whether it can open the file or not; so does a turn of the flush
  loop. More generally the bytes a successful flush writes depend on \<open>store\<close> alone (and on
  the order in which the container hands out its elements, which is the same for a
  container that was not modified): two engines with the same \<open>store\<close> write the same file.
\<close>

theorem persistToFile_idempotent:
  "persistToFile ord opened (persistToFile ord True s) = persistToFile ord True s
   \<and> flush_tick ord opened (persistToFile ord True s) = persistToFile ord True s
   \<and> (store s' = store s \<longrightarrow>
        persistence_file (persistToFile ord True s') = persistence_file (persistToFile ord True s))"
  by (simp add: persistToFile_def flush_tick_def)

lemma two_keys_db_file:
  "persistence_file (persistToFile [''a'', ''b''] True two_keys_db)
     = Some (''a'' @ [CHR 0x09] @ ''1'' @ [CHR 0x0A] @ ''b'' @ [CHR 0x09] @ ''2'' @ [CHR 0x0A])"
  by code_simp

lemma two_keys_db_get_store: "store (snd (BlinkDB_get ''a'' two_keys_db)) = store two_keys_db"
proof -
  have "0 < MAX_CAPACITY" by (simp add: MAX_CAPACITY_def)
  from reachable_inv [OF this two_keys_db_run] have "engine_inv two_keys_db" .
  then have "BlinkDB_get ''a'' two_keys_db
      = (Inr ''1'', lru_push_front ''a'' (lru_remove ''a'' two_keys_db))"
    using two_keys_db_store by (rule get_resident)
  then show ?thesis by simp
qed

theorem persistToFile_idempotent_witness:
  "persistence_file
     (persistToFile [''a'', ''b''] True (persistToFile [''a'', ''b''] True two_keys_db))
     = Some (''a'' @ [CHR 0x09] @ ''1'' @ [CHR 0x0A] @ ''b'' @ [CHR 0x09] @ ''2'' @ [CHR 0x0A])
   \<and> persistence_file
       (persistToFile [''a'', ''b''] True (snd (BlinkDB_get ''a'' two_keys_db)))
     = Some (''a'' @ [CHR 0x09] @ ''1'' @ [CHR 0x0A] @ ''b'' @ [CHR 0x09] @ ''2'' @ [CHR 0x0A])"
  using persistToFile_idempotent
    [of "[''a'', ''b'']" True two_keys_db "snd (BlinkDB_get ''a'' two_keys_db)"]
  by (simp add: two_keys_db_file two_keys_db_get_store)

lemma two_keys_db_unsaved:
  "dirty two_keys_db"
  "persistence_file two_keys_db = None"
  "store two_keys_db ''b'' = Some ''2''"
  by code_simp+

text \<open>
  C6 fails on the code. \<^verbatim>\<open>persistToFile\<close> clears \<open>dirty\<close> after the \<^verbatim>\<open>if (out)\<close>, so also when the
  file could not be opened. Then the file is as it was and \<open>store\<close> is untouched, and neither
  the next turn of the flush loop nor the destructor writes anything, although they could
  open the file: the flush is not retried. After \<^verbatim>\<open>SET a 1; SET b 2\<close> on a fresh engine the two
  records are unsaved and \<open>dirty\<close> is set; one flush that cannot open the file, and there is
  still no file after the next turn of the loop and the destructor.
\<close>

theorem failed_flush_is_never_retried:
  "dirty (persistToFile ord False s) = False
   \<and> persistence_file (persistToFile ord False s) = persistence_file s
   \<and> store (persistToFile ord False s) = store s
   \<and> flush_tick ord' opened' (persistToFile ord False s) = persistToFile ord False s
   \<and> BlinkDB_destructor ord' opened' (persistToFile ord False s) = persistToFile ord False s
   \<and> dirty two_keys_db
   \<and> store two_keys_db ''a'' = Some ''1''
   \<and> store two_keys_db ''b'' = Some ''2''
   \<and> persistence_file two_keys_db = None
   \<and> persistence_file
       (BlinkDB_destructor [''a'', ''b''] True
          (flush_tick [''a'', ''b''] True (persistToFile [''a'', ''b''] False two_keys_db))) = None"
  by (simp add: persistToFile_def flush_tick_def BlinkDB_destructor_def two_keys_db_unsaved
      two_keys_db_store)

text \<open>
  C7. On a fresh engine of capacity \<open>capacity\<close> (not zero, no file), after \<^verbatim>\<open>SET\<close> of
  \<open>capacity + 1\<close> pairwise different keys in a row, the first key is not in \<open>store\<close> and is
  the one marked in \<open>evicted_keys\<close>; the others are in \<open>store\<close>.
\<close>

theorem lru_overflow_evicts_oldest:
  assumes "0 < capacity" and "distinct (map fst kvs)" and "length kvs = Suc capacity"
  shows "store (set_all kvs (BlinkDB_new capacity None)) (fst (hd kvs)) = None
       \<and> evicted_keys (set_all kvs (BlinkDB_new capacity None)) = [fst (hd kvs) \<mapsto> True]
       \<and> dom (store (set_all kvs (BlinkDB_new capacity None))) = fst ` set (tl kvs)"
  using fresh_overflow(2,3,4) [OF assms] by simp

theorem lru_overflow_evicts_oldest_witness:
  "store (set_all [(''a'', ''1''), (''b'', ''2''), (''c'', ''3'')] (BlinkDB_new 2 None)) ''a'' = None
   \<and> evicted_keys (set_all [(''a'', ''1''), (''b'', ''2''), (''c'', ''3'')] (BlinkDB_new 2 None)) ''a''
       = Some True
   \<and> dom (store (set_all [(''a'', ''1''), (''b'', ''2''), (''c'', ''3'')] (BlinkDB_new 2 None)))
       = {''b'', ''c''}"
  using lru_overflow_evicts_oldest [of 2 "[(''a'', ''1''), (''b'', ''2''), (''c'', ''3'')]"]
  by simp

text \<open>
  C5, as the code has it. In every state that satisfies \<open>engine_inv\<close>, \<^verbatim>\<open>get\<close> of a key that is
  marked in \<open>evicted_keys\<close> and not in \<open>store\<close> scans the file for it. On a hit it returns the
  value found, and afterwards the key is in \<open>store\<close> with that value, at the front of the LRU
  list and no longer marked. On a miss (no file, or no record of the key) it returns
  \<^verbatim>\<open>"NULL"\<close> and changes nothing: the marker stays.
\<close>

theorem get_evicted_key:
  assumes "engine_inv s"
    and "evicted_keys s key \<noteq> None"
    and "store s key = None"
  shows "case log_lookup key s of
           None \<Rightarrow> BlinkDB_get key s = (Inr ''NULL'', s)
         | Some val \<Rightarrow>
             fst (BlinkDB_get key s) = Inr val
             \<and> store (snd (BlinkDB_get key s)) key = Some val
             \<and> evicted_keys (snd (BlinkDB_get key s)) key = None
             \<and> (\<exists>ks. map snd (lru_keys (snd (BlinkDB_get key s))) = key # ks)"
proof (cases "log_lookup key s")
  case None
  with assms(3) show ?thesis by (simp add: get_evicted_miss)
next
  case (Some val)
  note h = get_evicted_hit [OF assms(1) assms(3) assms(2) Some]
  from h(1,2,3,4) Some show ?thesis by simp
qed

theorem get_evicted_key_witness:
  "engine_inv stale_log_db
   \<and> evicted_keys stale_log_db ''k'' = Some True
   \<and> store stale_log_db ''k'' = None
   \<and> log_lookup ''k'' stale_log_db = Some ''v''
   \<and> fst (BlinkDB_get ''k'' stale_log_db) = Inr ''v''
   \<and> store (snd (BlinkDB_get ''k'' stale_log_db)) ''k'' = Some ''v''
   \<and> evicted_keys (snd (BlinkDB_get ''k'' stale_log_db)) ''k'' = None
   \<and> (\<exists>ks. map snd (lru_keys (snd (BlinkDB_get ''k'' stale_log_db))) = ''k'' # ks)"
proof -
  have e: "evicted_keys stale_log_db ''k'' \<noteq> None" by (simp add: stale_log_db_facts(3))
  from get_evicted_key [OF stale_log_db_facts(1) e stale_log_db_facts(2)]
  show ?thesis by (simp add: stale_log_db_facts(1,2,3,5))
qed

text \<open>
  C5 as stated fails three times. On a miss: in \<open>overflowed_db\<close> key \<^verbatim>\<open>k\<close> is marked and there
  is no file; \<^verbatim>\<open>get\<close> returns \<^verbatim>\<open>"NULL"\<close> and the marker is still there. For a marked key that is
  resident: in \<open>remarked_db\<close> key \<^verbatim>\<open>k\<close> is marked, the file has its record, and \<^verbatim>\<open>get\<close> returns
  the value in \<open>store\<close> without looking at the file; the marker is still there. On a hit
  outside the invariant: in \<open>twice_db\<close> key \<^verbatim>\<open>k\<close> is marked and not resident and the file has
  its record, but the list still ends in a node for \<^verbatim>\<open>k\<close>; \<^verbatim>\<open>get\<close> restores the key, the touch
  that follows evicts it again, and the value is read through the iterator of the erased
  element: the key is neither returned nor resident afterwards, and it is marked.
\<close>

theorem get_evicted_miss_keeps_marker:
  "evicted_keys overflowed_db ''k'' = Some True
   \<and> store overflowed_db ''k'' = None
   \<and> log_lookup ''k'' overflowed_db = None
   \<and> fst (BlinkDB_get ''k'' overflowed_db) = Inr ''NULL''
   \<and> evicted_keys (snd (BlinkDB_get ''k'' overflowed_db)) ''k'' = Some True
   \<and> evicted_keys remarked_db ''k'' = Some True
   \<and> log_lookup ''k'' remarked_db = Some ''v''
   \<and> fst (BlinkDB_get ''k'' remarked_db) = Inr ''w''
   \<and> evicted_keys (snd (BlinkDB_get ''k'' remarked_db)) ''k'' = Some True
   \<and> evicted_keys twice_db ''k'' = Some True
   \<and> store twice_db ''k'' = None
   \<and> log_lookup ''k'' twice_db = Some ''v''
   \<and> fst (BlinkDB_get ''k'' twice_db) = Inl dangling_iterator
   \<and> store (snd (BlinkDB_get ''k'' twice_db)) ''k'' = None
   \<and> evicted_keys (snd (BlinkDB_get ''k'' twice_db)) ''k'' = Some True"
proof -
  have l: "log_lookup ''k'' overflowed_db = None"
    by (simp add: log_lookup_def overflowed_db_facts(4))
  have m: "BlinkDB_get ''k'' overflowed_db = (Inr ''NULL'', overflowed_db)"
    using overflowed_db_facts(2) l by (rule get_evicted_miss)
  have r: "BlinkDB_get ''k'' remarked_db
      = (Inr ''w'', lru_push_front ''k'' (lru_remove ''k'' remarked_db))"
    using remarked_db_facts(1,2) by (rule get_resident)
  have a: "evicted_keys overflowed_db ''k'' = Some True
      \<and> store overflowed_db ''k'' = None
      \<and> log_lookup ''k'' overflowed_db = None
      \<and> fst (BlinkDB_get ''k'' overflowed_db) = Inr ''NULL''
      \<and> evicted_keys (snd (BlinkDB_get ''k'' overflowed_db)) ''k'' = Some True"
    using m l by (simp add: overflowed_db_facts(2,3))
  have b: "evicted_keys remarked_db ''k'' = Some True
      \<and> log_lookup ''k'' remarked_db = Some ''v''
      \<and> fst (BlinkDB_get ''k'' remarked_db) = Inr ''w''
      \<and> evicted_keys (snd (BlinkDB_get ''k'' remarked_db)) ''k'' = Some True"
    using r by (simp add: remarked_db_facts(3,4))
  have c: "evicted_keys twice_db ''k'' = Some True
      \<and> store twice_db ''k'' = None
      \<and> log_lookup ''k'' twice_db = Some ''v''
      \<and> fst (BlinkDB_get ''k'' twice_db) = Inl dangling_iterator
      \<and> store (snd (BlinkDB_get ''k'' twice_db)) ''k'' = None
      \<and> evicted_keys (snd (BlinkDB_get ''k'' twice_db)) ''k'' = Some True"
    by (simp only: twice_db_facts fst_conv snd_conv simp_thms)
  from a b c show ?thesis by (simp only: simp_thms)
qed

text \<open>
  C1 fails on the code. \<open>stale_log_db\<close> is reached by \<^verbatim>\<open>SET k v\<close>, a flush, and \<^verbatim>\<open>SET\<close> of 10000
  more keys, which evicts \<^verbatim>\<open>k\<close>. There \<^verbatim>\<open>del("k")\<close> returns false and changes nothing, the key
  is still marked as evicted, and the \<^verbatim>\<open>get("k")\<close> that follows restores \<^verbatim>\<open>v\<close> from the file.
\<close>

theorem del_keeps_eviction_marker:
  "run ([SET ''k'' ''v'', FLUSH [''k''] True]
        @ map (\<lambda>(k, v). SET k v) (tl (fill_keys (Suc MAX_CAPACITY))))
     (BlinkDB_new MAX_CAPACITY None) = Inr stale_log_db
   \<and> BlinkDB_del ''k'' stale_log_db = (False, stale_log_db)
   \<and> evicted_keys (snd (BlinkDB_del ''k'' stale_log_db)) ''k'' = Some True
   \<and> fst (BlinkDB_get ''k'' (snd (BlinkDB_del ''k'' stale_log_db))) = Inr ''v''"
proof -
  have d: "BlinkDB_del ''k'' stale_log_db = (False, stale_log_db)"
    by (simp add: BlinkDB_del_def stale_log_db_facts(2))
  have e: "evicted_keys stale_log_db ''k'' \<noteq> None" by (simp add: stale_log_db_facts(3))
  have "fst (BlinkDB_get ''k'' stale_log_db) = Inr ''v''"
    using stale_log_db_facts(1,2) e stale_log_db_facts(5) by (rule get_evicted_hit(1))
  with d stale_log_db_run show ?thesis by (simp only: snd_conv stale_log_db_facts(3) fun_upd_same simp_thms)
qed

text \<open>
  C2 fails on the code. In \<open>overflowed_db\<close> key \<^verbatim>\<open>k\<close> has been evicted. The flush that follows
  writes \<open>store\<close>, which no longer holds \<^verbatim>\<open>k\<close>: whatever the order of the records, the key is
  marked as evicted, the file exists, the lookup of \<^verbatim>\<open>k\<close> in it fails, and \<^verbatim>\<open>get("k")\<close> returns
  \<^verbatim>\<open>"NULL"\<close>.
\<close>

theorem flush_drops_evicted_key:
  "evicted_keys (flush_tick ord True overflowed_db) ''k'' = Some True
   \<and> persistence_file (flush_tick ord True overflowed_db)
       = Some (concat (map (record_line (store overflowed_db)) ord))
   \<and> log_lookup ''k'' (flush_tick ord True overflowed_db) = None
   \<and> fst (BlinkDB_get ''k'' (flush_tick ord True overflowed_db)) = Inr ''NULL''"
proof -
  let ?s = "flush_tick ord True overflowed_db"
  have f: "?s = persistToFile ord True overflowed_db"
    using overflowed_db_dirty by (simp add: flush_tick_def)
  have pf: "persistence_file ?s = Some (concat (map (record_line (store overflowed_db)) ord))"
    by (simp add: f persistToFile_def)
  have "file_lookup ''k'' (concat (map (record_line (store overflowed_db)) ord))
      = (if ''k'' \<in> set ord then store overflowed_db ''k'' else None)"
    by (rule file_lookup_render) (rule overflowed_db_facts(5))
  then have l: "log_lookup ''k'' ?s = None"
    by (simp add: log_lookup_def pf overflowed_db_facts(2))
  have st: "store ?s ''k'' = None" by (simp add: f persistToFile_def overflowed_db_facts(2))
  have "BlinkDB_get ''k'' ?s = (Inr ''NULL'', ?s)" using st l by (rule get_evicted_miss)
  moreover have "evicted_keys ?s ''k'' = Some True"
    by (simp add: f persistToFile_def overflowed_db_facts(3))
  ultimately show ?thesis using pf l by simp
qed

subsection \<open>The server\<close>

text \<open>Two requests with broken framing: the spec's example, whose second argument lacks its
  \<^verbatim>\<open>$3\<close> line, and a \<^verbatim>\<open>*3\<close> array that ends after its second argument.\<close>

definition missing_dollar :: string where
  "missing_dollar = ''*2'' @ CRLF @ ''$3'' @ CRLF @ ''GET'' @ CRLF @ ''foo'' @ CRLF"

definition truncated_set :: string where
  "truncated_set = ''*3'' @ CRLF @ ''$3'' @ CRLF @ ''GET'' @ CRLF @ ''$1'' @ CRLF @ ''a'' @ CRLF"

lemma decode_missing_dollar: "decodeCommand missing_dollar = Inr [''GET'']"
  by code_simp

lemma decode_truncated_set: "decodeCommand truncated_set = Inr [''GET'', ''a'']"
  by code_simp

lemma missing_dollar_short: "take 1024 missing_dollar = missing_dollar" "missing_dollar \<noteq> []"
  by code_simp+

lemma handle_GET_alone: "handleCommand [''GET''] s = (Inr (''-ERR Unknown command'' @ CRLF), s)"
  by (simp add: handleCommand_def toupper_def encodeError_def)

text \<open>
  C3 fails on the code. The loop of \<^verbatim>\<open>decodeCommand\<close> returns the arguments parsed so far at
  every check that fails, so the spec's example yields the vector \<^verbatim>\<open>["GET"]\<close>, which is not
  empty; \<^verbatim>\<open>handleClientRead\<close> dispatches it and the reply is \<^verbatim>\<open>-ERR Unknown command\<close>, whatever
  the engine holds. The truncated array yields \<^verbatim>\<open>["GET", "a"]\<close>, a complete \<^verbatim>\<open>GET\<close>.
\<close>

theorem decode_returns_partial_vector:
  "decodeCommand missing_dollar = Inr [''GET'']
   \<and> handleClientRead missing_dollar s = (Inr (Some (''-ERR Unknown command'' @ CRLF)), s)
   \<and> decodeCommand truncated_set = Inr [''GET'', ''a'']"
  by (simp add: handleClientRead_def missing_dollar_short decode_missing_dollar
      decode_truncated_set handle_GET_alone)

text \<open>Three requests whose array count or bulk length \<^verbatim>\<open>std::stoi\<close> cannot convert.\<close>

definition bad_count :: string where
  "bad_count = ''*x'' @ CRLF"

definition big_count :: string where
  "big_count = ''*2147483648'' @ CRLF"

definition bad_length :: string where
  "bad_length = ''*1'' @ CRLF @ ''$x'' @ CRLF"

lemma decode_bad_count: "decodeCommand bad_count = Inl invalid_argument"
  by code_simp

lemma decode_big_count: "decodeCommand big_count = Inl out_of_range"
  by code_simp

lemma decode_bad_length: "decodeCommand bad_length = Inl invalid_argument"
  by code_simp

lemma bad_count_short: "take 1024 bad_count = bad_count" "bad_count \<noteq> []"
  by code_simp+

text \<open>
  C4 fails on the code. \<^verbatim>\<open>std::stoi\<close> throws on a count or a length that is not a number or
  does not fit an \<^verbatim>\<open>int\<close>; neither \<^verbatim>\<open>decodeCommand\<close> nor \<^verbatim>\<open>handleClientRead\<close> catches it, so
  the request ends in the exception and no reply is written.
\<close>

theorem stoi_raises_to_the_event_loop:
  "decodeCommand bad_count = Inl invalid_argument
   \<and> handleClientRead bad_count s = (Inl invalid_argument, s)
   \<and> decodeCommand big_count = Inl out_of_range
   \<and> decodeCommand bad_length = Inl invalid_argument"
  by (simp add: handleClientRead_def bad_count_short decode_bad_count decode_big_count
      decode_bad_length)











end
